theory Spec2Isabelle
  imports Main "HOL-Library.Word" "HOL-Library.Sublist" "HOL-Library.Char_ord"
    "HOL-Library.List_Lexorder" "HOL-Library.AList"
begin

section \<open>Strings\<close>

text \<open>
  A Go \<^verbatim>\<open>string\<close> is a sequence of bytes; it is modelled as a \<^typ>\<open>string\<close>
  (a list of 8-bit characters). Indices count bytes, as \<^verbatim>\<open>len\<close>, slicing,
  \<^verbatim>\<open>strings.Index\<close> and \<^verbatim>\<open>strings.LastIndex\<close> do.
\<close>

datatype failure =
    SliceBounds    \<comment> \<open>run-time panic: slice bounds out of range\<close>
  | NilDeref       \<comment> \<open>run-time panic: method call on a nil \<^verbatim>\<open>os.FileInfo\<close>\<close>
  | Exit1          \<comment> \<open>\<^verbatim>\<open>printErrorAndExit(e, 1)\<close>: the error is printed, exit status 1\<close>
  | OutOfFuel      \<comment> \<open>the walk was cut off by the recursion bound of the model\<close>

abbreviation nl :: char where "nl \<equiv> CHR 0x0A"

text \<open>\<^verbatim>\<open>strings.Index(s, sub)\<close>: the byte index of the first occurrence, \<open>-1\<close> if none.\<close>

fun indexFrom :: "string \<Rightarrow> string \<Rightarrow> nat \<Rightarrow> int" where
  "indexFrom [] sub i = (if sub = [] then int i else - 1)"
| "indexFrom (c # cs) sub i = (if prefix sub (c # cs) then int i else indexFrom cs sub (Suc i))"

definition Index :: "string \<Rightarrow> string \<Rightarrow> int" where
  "Index s sub = indexFrom s sub 0"

text \<open>\<^verbatim>\<open>strings.LastIndex(s, sub)\<close>: the byte index of the last occurrence, \<open>-1\<close> if none.\<close>

fun lastIndexFrom :: "string \<Rightarrow> string \<Rightarrow> nat \<Rightarrow> int \<Rightarrow> int" where
  "lastIndexFrom [] sub i found = (if sub = [] then int i else found)"
| "lastIndexFrom (c # cs) sub i found =
     lastIndexFrom cs sub (Suc i) (if prefix sub (c # cs) then int i else found)"

definition LastIndex :: "string \<Rightarrow> string \<Rightarrow> int" where
  "LastIndex s sub = lastIndexFrom s sub 0 (- 1)"

text \<open>
  The slice expressions \<^verbatim>\<open>s[lo:hi]\<close> and \<^verbatim>\<open>s[lo:]\<close> of Go panic unless
  \<open>0 \<le> lo \<le> hi \<le> len(s)\<close>.
\<close>

definition slice :: "string \<Rightarrow> int \<Rightarrow> int \<Rightarrow> failure + string" where
  "slice s lo hi =
     (if 0 \<le> lo \<and> lo \<le> hi \<and> hi \<le> int (length s)
      then Inr (take (nat hi - nat lo) (drop (nat lo) s)) else Inl SliceBounds)"

definition sliceFrom :: "string \<Rightarrow> int \<Rightarrow> failure + string" where
  "sliceFrom s lo = slice s lo (int (length s))"

subsection \<open>\<^verbatim>\<open>strings.TrimSpace\<close>\<close>

text \<open>
  \<^verbatim>\<open>strings.TrimSpace\<close> removes, first from the front and then from the back, every
  UTF-8 encoded code point for which \<^verbatim>\<open>unicode.IsSpace\<close> holds: the six ASCII
  characters tab, line feed, vertical tab, form feed, carriage return and blank, and
  U+0085, U+00A0, U+1680, U+2000 to U+200A, U+2028, U+2029, U+202F, U+205F, U+3000.
  A byte sequence that is not the encoding of one of them stops the trimming.
\<close>

definition spaceRunes :: "string list" where
  "spaceRunes =
    [[CHR 0x09], [CHR 0x0A], [CHR 0x0B], [CHR 0x0C], [CHR 0x0D], [CHR 0x20],
     [CHR 0xC2, CHR 0x85], [CHR 0xC2, CHR 0xA0], [CHR 0xE1, CHR 0x9A, CHR 0x80],
     [CHR 0xE2, CHR 0x80, CHR 0x80], [CHR 0xE2, CHR 0x80, CHR 0x81],
     [CHR 0xE2, CHR 0x80, CHR 0x82], [CHR 0xE2, CHR 0x80, CHR 0x83],
     [CHR 0xE2, CHR 0x80, CHR 0x84], [CHR 0xE2, CHR 0x80, CHR 0x85],
     [CHR 0xE2, CHR 0x80, CHR 0x86], [CHR 0xE2, CHR 0x80, CHR 0x87],
     [CHR 0xE2, CHR 0x80, CHR 0x88], [CHR 0xE2, CHR 0x80, CHR 0x89],
     [CHR 0xE2, CHR 0x80, CHR 0x8A], [CHR 0xE2, CHR 0x80, CHR 0xA8],
     [CHR 0xE2, CHR 0x80, CHR 0xA9], [CHR 0xE2, CHR 0x80, CHR 0xAF],
     [CHR 0xE2, CHR 0x81, CHR 0x9F], [CHR 0xE3, CHR 0x80, CHR 0x80]]"

text \<open>The width in bytes of the white space code point a string starts or ends with, or 0.\<close>

definition spaceWidth :: "string \<Rightarrow> nat" where
  "spaceWidth s = (case filter (\<lambda>r. prefix r s) spaceRunes of [] \<Rightarrow> 0 | r # _ \<Rightarrow> length r)"

definition spaceWidthEnd :: "string \<Rightarrow> nat" where
  "spaceWidthEnd s = (case filter (\<lambda>r. suffix r s) spaceRunes of [] \<Rightarrow> 0 | r # _ \<Rightarrow> length r)"

fun trimLeftN :: "nat \<Rightarrow> string \<Rightarrow> string" where
  "trimLeftN 0 s = s"
| "trimLeftN (Suc n) s = (if spaceWidth s = 0 then s else trimLeftN n (drop (spaceWidth s) s))"

fun trimRightN :: "nat \<Rightarrow> string \<Rightarrow> string" where
  "trimRightN 0 s = s"
| "trimRightN (Suc n) s =
     (if spaceWidthEnd s = 0 then s else trimRightN n (take (length s - spaceWidthEnd s) s))"

text \<open>
  Each round removes at least one byte, so \<open>length s\<close> rounds are enough to reach the
  first byte sequence that is not white space.
\<close>

definition TrimSpace :: "string \<Rightarrow> string" where
  "TrimSpace s = (let t = trimLeftN (length s) s in trimRightN (length t) t)"

section \<open>The manifest: one line per entry\<close>

record fileInfo =
  "file" :: string
  size' :: "64 word"

subsection \<open>Formatting the size: \<^verbatim>\<open>%.2f\<close> of \<^verbatim>\<open>float64(size) / float64(1024000)\<close>\<close>

text \<open>
  A non-negative \<^verbatim>\<open>float64\<close> in the normal range is a pair \<open>(m, e)\<close> that stands for
  \<open>m * 2 ^ e\<close>, with a mantissa of at most 53 bits. Conversion from \<^verbatim>\<open>int64\<close> and
  division round to the nearest such number, ties to the even mantissa. The values that
  occur here (an \<^verbatim>\<open>int64\<close> divided by 1024000) stay far inside the normal range, so
  neither infinities nor subnormal numbers are modelled.
\<close>

fun bitlen :: "nat \<Rightarrow> nat" where
  "bitlen n = (if n = 0 then 0 else Suc (bitlen (n div 2)))"

declare bitlen.simps [simp del]

text \<open>The quotient \<open>a / b\<close> rounded to the nearest integer, ties to even.\<close>

definition roundDiv :: "nat \<Rightarrow> nat \<Rightarrow> nat" where
  "roundDiv a b =
     (let q = a div b; r = a mod b
      in if 2 * r < b then q else if b < 2 * r then Suc q else if even q then q else Suc q)"

text \<open>The fraction \<open>a / b\<close> divided by \<open>2 ^ e\<close>, again as a fraction.\<close>

definition scale2 :: "nat \<Rightarrow> nat \<Rightarrow> int \<Rightarrow> nat \<times> nat" where
  "scale2 a b e = (if 0 \<le> e then (a, b * 2 ^ nat e) else (a * 2 ^ nat (- e), b))"

text \<open>Rounding the fraction \<open>a / b\<close> to a \<^verbatim>\<open>float64\<close>.\<close>

definition roundFloat :: "nat \<Rightarrow> nat \<Rightarrow> nat \<times> int" where
  "roundFloat a b =
     (if a = 0 then (0, 0)
      else let e1 = int (bitlen a) - int (bitlen b) - 53;
               e = (if 2 ^ 53 * snd (scale2 a b e1) \<le> fst (scale2 a b e1) then e1 + 1 else e1)
           in (roundDiv (fst (scale2 a b e)) (snd (scale2 a b e)), e))"

text \<open>\<^verbatim>\<open>float64(n)\<close> and \<^verbatim>\<open>x / float64(1024000)\<close>, on magnitudes.\<close>

definition float64 :: "nat \<Rightarrow> nat \<times> int" where
  "float64 n = roundFloat n 1"

definition divMB :: "nat \<times> int \<Rightarrow> nat \<times> int" where
  "divMB x = (case x of (m, e) \<Rightarrow>
     if 0 \<le> e then roundFloat (m * 2 ^ nat e) 1024000 else roundFloat m (1024000 * 2 ^ nat (- e)))"

text \<open>
  \<^verbatim>\<open>%.2f\<close> prints the exact decimal expansion of the \<^verbatim>\<open>float64\<close> rounded to two
  places after the point, ties to even: the number of hundredths is computed first.
\<close>

definition hundredths :: "nat \<times> int \<Rightarrow> nat" where
  "hundredths x = (case x of (m, e) \<Rightarrow>
     if 0 \<le> e then m * 100 * 2 ^ nat e else roundDiv (m * 100) (2 ^ nat (- e)))"

text \<open>The character of a decimal digit \<open>d < 10\<close>.\<close>

definition digit :: "nat \<Rightarrow> char" where
  "digit d = ''0123456789'' ! d"

fun showNat :: "nat \<Rightarrow> string" where
  "showNat n = (if n < 10 then [digit n] else showNat (n div 10) @ [digit (n mod 10)])"

declare showNat.simps [simp del]

definition fmtMB :: "64 word \<Rightarrow> string" where
  "fmtMB sz =
     (let h = hundredths (divMB (float64 (nat \<bar>sint sz\<bar>)))
      in (if sint sz < 0 then ''-'' else []) @ showNat (h div 100) @ ''.'' @
         [digit (h mod 100 div 10), digit (h mod 10)])"

text \<open>
  The shape of a number printed with two places: an optional minus sign, at least one
  digit, the point, two digits.
\<close>

definition isDigit :: "char \<Rightarrow> bool" where
  "isDigit c \<longleftrightarrow> c \<in> set ''0123456789''"

definition twoDecimals :: "string \<Rightarrow> bool" where
  "twoDecimals s =
     (case rev (if prefix ''-'' s then tl s else s) of
        d2 # d1 # dot # ip \<Rightarrow>
          dot = CHR ''.'' \<and> isDigit d1 \<and> isDigit d2 \<and> ip \<noteq> [] \<and> list_all isDigit ip
      | _ \<Rightarrow> False)"

text \<open>
  The text of \<^verbatim>\<open>fmt.Fprintf(f, "%s - %.2fMB\n", i.file, float64(i.size) / float64(1024000))\<close>.
\<close>

definition manifestLine :: "fileInfo \<Rightarrow> string" where
  "manifestLine i = file i @ '' - '' @ fmtMB (size' i) @ ''MB'' @ [nl]"

subsection \<open>Reading: the loop of \<^verbatim>\<open>readTextFile\<close>\<close>

text \<open>
  \<^verbatim>\<open>r.ReadString('\n')\<close> returns the text up to and including the next line feed and
  leaves the rest in the reader; without a line feed it returns an error (end of file).
\<close>

definition ReadString :: "string \<Rightarrow> (string \<times> string) option" where
  "ReadString buf =
     (if nl \<in> set buf
      then Some (takeWhile (\<lambda>c. c \<noteq> nl) buf @ [nl], tl (dropWhile (\<lambda>c. c \<noteq> nl) buf))
      else None)"

lemma ReadString_shorter: "ReadString buf = Some (line, rest) \<Longrightarrow> length rest < length buf"
proof -
  assume a: "ReadString buf = Some (line, rest)"
  then have m: "nl \<in> set buf" and r: "rest = tl (dropWhile (\<lambda>c. c \<noteq> nl) buf)"
    by (auto simp: ReadString_def split: if_splits)
  from m have "dropWhile (\<lambda>c. c \<noteq> nl) buf \<noteq> []" by simp
  then have "length rest < length (dropWhile (\<lambda>c. c \<noteq> nl) buf)"
    using r by (cases "dropWhile (\<lambda>c. c \<noteq> nl) buf") auto
  also have "\<dots> \<le> length buf" by (rule length_dropWhile_le)
  finally show ?thesis .
qed

function readLines :: "string \<Rightarrow> string list \<Rightarrow> failure + string list" where
  "readLines buf result =
     (case ReadString buf of
        None \<Rightarrow> Inr result
      | Some (line, rest) \<Rightarrow>
          (let trimmedLine = TrimSpace line;
               endIdx = LastIndex trimmedLine ''-'' - 1
           in case slice trimmedLine 0 endIdx of
                Inl f \<Rightarrow> Inl f
              | Inr p \<Rightarrow> readLines rest (result @ [p])))"
  by pat_completeness auto
termination
  by (relation "measure (\<lambda>(buf, result). length buf)") (auto dest: ReadString_shorter)

declare readLines.simps [simp del]

section \<open>Paths\<close>

text \<open>
  The functions of \<^verbatim>\<open>path/filepath\<close> the program calls, for a system whose separator
  is the slash. \<^verbatim>\<open>filepath.Clean\<close> is computed on the elements between the slashes:
  empty elements and \<^verbatim>\<open>.\<close> are dropped, \<^verbatim>\<open>..\<close> removes the element before it, is
  dropped at the root, and is kept at the front of a relative path.
\<close>

fun splitSlash :: "string \<Rightarrow> string list" where
  "splitSlash [] = [[]]"
| "splitSlash (c # cs) =
     (if c = CHR ''/'' then [] # splitSlash cs
      else (case splitSlash cs of [] \<Rightarrow> [[c]] | x # xs \<Rightarrow> (c # x) # xs))"

fun joinSlash :: "string list \<Rightarrow> string" where
  "joinSlash [] = []"
| "joinSlash [x] = x"
| "joinSlash (x # y # ys) = x @ ''/'' @ joinSlash (y # ys)"

fun cleanElems :: "bool \<Rightarrow> string list \<Rightarrow> string list \<Rightarrow> string list" where
  "cleanElems rooted [] out = rev out"
| "cleanElems rooted (s # ss) out =
     (if s = [] \<or> s = ''.'' then cleanElems rooted ss out
      else if s = ''..'' then
        (case out of
           [] \<Rightarrow> if rooted then cleanElems rooted ss [] else cleanElems rooted ss [s]
         | t # ts \<Rightarrow> if t = ''..'' then cleanElems rooted ss (s # out)
                     else cleanElems rooted ss ts)
      else cleanElems rooted ss (s # out))"

definition IsAbs :: "string \<Rightarrow> bool" where
  "IsAbs p = prefix ''/'' p"

definition Clean :: "string \<Rightarrow> string" where
  "Clean p =
     (if p = [] then ''.''
      else let elems = cleanElems (IsAbs p) (splitSlash p) []
           in if IsAbs p then ''/'' @ joinSlash elems
              else if elems = [] then ''.'' else joinSlash elems)"

text \<open>\<^verbatim>\<open>filepath.Join\<close> of two elements: empty elements are ignored, the rest is cleaned.\<close>

definition Join :: "string \<Rightarrow> string \<Rightarrow> string" where
  "Join a b =
     (if a = [] \<and> b = [] then []
      else if a = [] then Clean b
      else if b = [] then Clean a
      else Clean (a @ ''/'' @ b))"

text \<open>
  \<^verbatim>\<open>filepath.Base\<close>: the last element of the path, trailing slashes removed first;
  \<^verbatim>\<open>.\<close> for the empty path and \<^verbatim>\<open>/\<close> for a path of slashes only.
\<close>

definition Base :: "string \<Rightarrow> string" where
  "Base p =
     (if p = [] then ''.''
      else let q = rev (dropWhile (\<lambda>c. c = CHR ''/'') (rev p));
               b = rev (takeWhile (\<lambda>c. c \<noteq> CHR ''/'') (rev q))
           in if b = [] then ''/'' else b)"

section \<open>The file system\<close>

text \<open>
  The file system is a finite table from absolute paths, given as the list of their
  elements, to entries; the order of the table is the order in which a directory
  yields its names when it is read. An entry is a file with its bytes, a directory
  with the size \<^verbatim>\<open>lstat\<close> reports for it, or a name whose \<^verbatim>\<open>lstat\<close> fails (for
  instance inside a directory the process may read but not search). A file carries
  whether the process may open it, a directory whether its names can be read.
  Symbolic links are not modelled. A path is resolved lexically, relative paths
  against the working directory.
\<close>

datatype entry =
    File string bool
  | Dir "64 word" bool
  | NoStat

record fsys =
  ents :: "(string list \<times> entry) list"
  cwd :: string
  mkdirSize :: "64 word"   \<comment> \<open>the size a newly made directory reports\<close>

text \<open>What \<^verbatim>\<open>os.FileInfo\<close> offers: \<^verbatim>\<open>Name()\<close>, \<^verbatim>\<open>Size()\<close>, \<^verbatim>\<open>IsDir()\<close>.\<close>

record info =
  fiName :: string
  fiSize :: "64 word"
  fiIsDir :: bool

definition keyOf :: "fsys \<Rightarrow> string \<Rightarrow> string list option" where
  "keyOf fs p =
     (if p = [] then None
      else Some (cleanElems True (splitSlash (if IsAbs p then p else cwd fs @ ''/'' @ p)) []))"

definition entryAt :: "fsys \<Rightarrow> string \<Rightarrow> entry option" where
  "entryAt fs p = (case keyOf fs p of None \<Rightarrow> None | Some k \<Rightarrow> map_of (ents fs) k)"

definition setEntry :: "fsys \<Rightarrow> string list \<Rightarrow> entry \<Rightarrow> fsys" where
  "setEntry fs k e = fs\<lparr>ents := AList.update k e (ents fs)\<rparr>"

definition nameOf :: "string list \<Rightarrow> string" where
  "nameOf k = (if k = [] then ''/'' else last k)"

definition statKey :: "fsys \<Rightarrow> string list \<Rightarrow> info option" where
  "statKey fs k =
     (case map_of (ents fs) k of
        Some (File c a) \<Rightarrow>
          Some \<lparr>fiName = nameOf k, fiSize = of_nat (length c), fiIsDir = False\<rparr>
      | Some (Dir sz l) \<Rightarrow> Some \<lparr>fiName = nameOf k, fiSize = sz, fiIsDir = True\<rparr>
      | _ \<Rightarrow> None)"

text \<open>\<^verbatim>\<open>os.Lstat\<close>; \<open>None\<close> is the result \<^verbatim>\<open>(nil, err)\<close>.\<close>

definition Lstat :: "fsys \<Rightarrow> string \<Rightarrow> info option" where
  "Lstat fs p = (case keyOf fs p of None \<Rightarrow> None | Some k \<Rightarrow> statKey fs k)"

text \<open>The names in a directory, in the order the directory yields them.\<close>

definition childNames :: "fsys \<Rightarrow> string list \<Rightarrow> string list" where
  "childNames fs k = remdups (map last (filter (\<lambda>k'. k' \<noteq> [] \<and> butlast k' = k) (map fst (ents fs))))"

text \<open>
  \<^verbatim>\<open>readDirNames\<close> of \<^verbatim>\<open>path/filepath\<close>: the names of a directory, sorted
  (\<^verbatim>\<open>sort.Strings\<close>); \<open>None\<close> when the directory cannot be opened or read.
\<close>

definition readDirNames :: "fsys \<Rightarrow> string \<Rightarrow> string list option" where
  "readDirNames fs p =
     (case keyOf fs p of
        None \<Rightarrow> None
      | Some k \<Rightarrow>
          (case map_of (ents fs) k of
             Some (Dir sz True) \<Rightarrow> Some (sort (childNames fs k))
           | _ \<Rightarrow> None))"

text \<open>
  \<^verbatim>\<open>ioutil.ReadDir\<close>: \<^verbatim>\<open>lstat\<close> on every name of the directory, the results sorted by
  name; \<open>None\<close> when the directory cannot be read or a name cannot be examined.
\<close>

definition ReadDir :: "fsys \<Rightarrow> string \<Rightarrow> info list option" where
  "ReadDir fs p =
     (case keyOf fs p of
        None \<Rightarrow> None
      | Some k \<Rightarrow>
          (case map_of (ents fs) k of
             Some (Dir sz True) \<Rightarrow>
               (case those (map (\<lambda>n. statKey fs (k @ [n])) (childNames fs k)) of
                  None \<Rightarrow> None
                | Some fi \<Rightarrow> Some (sort_key fiName fi))
           | _ \<Rightarrow> None))"

text \<open>\<^verbatim>\<open>filepath.Abs\<close>; the error of \<^verbatim>\<open>os.Getwd\<close> is not modelled.\<close>

definition Abs :: "fsys \<Rightarrow> string \<Rightarrow> string" where
  "Abs fs p = (if IsAbs p then Clean p else Join (cwd fs) p)"

subsection \<open>Making directories and writing files\<close>

text \<open>
  \<^verbatim>\<open>os.MkdirAll\<close>: nothing to do at a directory, an error at a file; otherwise the
  parent is made first and then the directory itself, which fails if the name is taken.
  The result is the new file system and whether the call returned \<^verbatim>\<open>nil\<close>.
\<close>

function mkdirAllKey :: "fsys \<Rightarrow> string list \<Rightarrow> fsys \<times> bool" where
  "mkdirAllKey fs k =
     (case map_of (ents fs) k of
        Some (Dir sz l) \<Rightarrow> (fs, True)
      | Some (File c a) \<Rightarrow> (fs, False)
      | _ \<Rightarrow>
          (if k = [] then (fs, False)
           else (case mkdirAllKey fs (butlast k) of
                   (fs1, ok) \<Rightarrow>
                     if \<not> ok then (fs1, False)
                     else if map_of (ents fs1) k = None
                       then (setEntry fs1 k (Dir (mkdirSize fs1) True), True)
                       else (fs1, False))))"
  by pat_completeness auto
termination
  by (relation "measure (\<lambda>(fs, k). length k)") auto

declare mkdirAllKey.simps [simp del]

definition MkdirAll :: "fsys \<Rightarrow> string \<Rightarrow> fsys \<times> bool" where
  "MkdirAll fs p = (case keyOf fs p of None \<Rightarrow> (fs, False) | Some k \<Rightarrow> mkdirAllKey fs k)"

text \<open>
  \<^verbatim>\<open>os.Open\<close> gives a handle on the entry, here its key. A directory can be opened as
  well; reading bytes from it yields nothing.
\<close>

definition Open :: "fsys \<Rightarrow> string \<Rightarrow> string list option" where
  "Open fs p =
     (case keyOf fs p of
        None \<Rightarrow> None
      | Some k \<Rightarrow>
          (case map_of (ents fs) k of
             Some (File c True) \<Rightarrow> Some k
           | Some (Dir sz True) \<Rightarrow> Some k
           | _ \<Rightarrow> None))"

definition readAll :: "fsys \<Rightarrow> string list \<Rightarrow> string" where
  "readAll fs k = (case map_of (ents fs) k of Some (File c a) \<Rightarrow> c | _ \<Rightarrow> [])"

definition isDirKey :: "fsys \<Rightarrow> string list \<Rightarrow> bool" where
  "isDirKey fs k = (case map_of (ents fs) k of Some (Dir sz l) \<Rightarrow> True | _ \<Rightarrow> False)"

text \<open>
  Opening for writing with \<^verbatim>\<open>O_CREATE\<close>: an existing file is opened, a missing one is
  made if its parent is a directory. \<^verbatim>\<open>os.Create\<close> also truncates
  (\<^verbatim>\<open>O_TRUNC\<close>), the \<^verbatim>\<open>os.OpenFile\<close> call of \<^verbatim>\<open>List\<close> does not (\<^verbatim>\<open>O_APPEND\<close>).
\<close>

definition openWrite :: "bool \<Rightarrow> fsys \<Rightarrow> string \<Rightarrow> (fsys \<times> string list) option" where
  "openWrite trunc fs p =
     (case keyOf fs p of
        None \<Rightarrow> None
      | Some k \<Rightarrow>
          (case map_of (ents fs) k of
             Some (File c True) \<Rightarrow> Some (if trunc then setEntry fs k (File [] True) else fs, k)
           | None \<Rightarrow>
               if k \<noteq> [] \<and> isDirKey fs (butlast k) then Some (setEntry fs k (File [] True), k)
               else None
           | _ \<Rightarrow> None))"

definition Create :: "fsys \<Rightarrow> string \<Rightarrow> (fsys \<times> string list) option" where
  "Create fs p = openWrite True fs p"

text \<open>Writing to an open file puts the bytes after those it holds.\<close>

definition writeTo :: "fsys \<Rightarrow> string list \<Rightarrow> string \<Rightarrow> fsys" where
  "writeTo fs k bytes =
     (case map_of (ents fs) k of
        Some (File c a) \<Rightarrow> setEntry fs k (File (c @ bytes) a)
      | _ \<Rightarrow> fs)"

section \<open>\<^verbatim>\<open>filepath.Walk\<close>\<close>

text \<open>
  \<^verbatim>\<open>Walk(root, fn)\<close> calls \<^verbatim>\<open>fn(path, info, err)\<close> for the root and for everything
  below it, a directory before its names and the names in sorted order. When \<^verbatim>\<open>lstat\<close>
  fails for the root or for a name, \<^verbatim>\<open>fn\<close> is called with a nil \<^verbatim>\<open>info\<close> and the error;
  when the names of a directory cannot be read, \<^verbatim>\<open>fn\<close> is called for the directory
  with the error and the directory is not entered. The names of a directory are read
  before \<^verbatim>\<open>fn\<close> is called for it, each name is examined when its turn comes. Every
  \<^verbatim>\<open>fn\<close> of this program returns \<^verbatim>\<open>nil\<close>, so the walk is never cut short; a panic
  inside \<^verbatim>\<open>fn\<close> ends it. The callback works on the file system and on the variables it
  captures; the walk descends one directory level per unit of fuel.
\<close>

type_synonym 'a walkFn = "string \<Rightarrow> info option \<Rightarrow> bool \<Rightarrow> fsys \<times> 'a \<Rightarrow> failure + fsys \<times> 'a"

fun walk :: "nat \<Rightarrow> 'a walkFn \<Rightarrow> string \<Rightarrow> info \<Rightarrow> fsys \<times> 'a \<Rightarrow> failure + fsys \<times> 'a"
  and walkNames :: "nat \<Rightarrow> 'a walkFn \<Rightarrow> string \<Rightarrow> string list \<Rightarrow> fsys \<times> 'a \<Rightarrow> failure + fsys \<times> 'a"
where
  "walk 0 fn path fi s = Inl OutOfFuel"
| "walk (Suc n) fn path fi s =
     (if \<not> fiIsDir fi then fn path (Some fi) False s
      else (case readDirNames (fst s) path of
              None \<Rightarrow> fn path (Some fi) True s
            | Some names \<Rightarrow>
                (case fn path (Some fi) False s of
                   Inl f \<Rightarrow> Inl f
                 | Inr s1 \<Rightarrow> walkNames n fn path names s1)))"
| "walkNames n fn path [] s = Inr s"
| "walkNames n fn path (name # names) s =
     (case (case Lstat (fst s) (Join path name) of
              None \<Rightarrow> fn (Join path name) None True s
            | Some fi \<Rightarrow> walk n fn (Join path name) fi s) of
        Inl f \<Rightarrow> Inl f
      | Inr s1 \<Rightarrow> walkNames n fn path names s1)"

definition Walk :: "nat \<Rightarrow> string \<Rightarrow> 'a walkFn \<Rightarrow> fsys \<times> 'a \<Rightarrow> failure + fsys \<times> 'a" where
  "Walk n root fn s =
     (case Lstat (fst s) root of
        None \<Rightarrow> fn root None True s
      | Some fi \<Rightarrow> walk n fn root fi s)"

section \<open>The program\<close>

subsection \<open>\<^verbatim>\<open>getSize\<close>\<close>

text \<open>
  The callback adds \<^verbatim>\<open>info.Size()\<close> to the captured \<^verbatim>\<open>size\<close> and returns \<^verbatim>\<open>nil\<close>;
  it does not look at \<^verbatim>\<open>err\<close>. The sum is an \<^verbatim>\<open>int64\<close> and wraps around.
\<close>

definition sizeFn :: "64 word walkFn" where
  "sizeFn path fi err s =
     (case fi of None \<Rightarrow> Inl NilDeref | Some i \<Rightarrow> Inr (fst s, snd s + fiSize i))"

definition getSize :: "nat \<Rightarrow> fsys \<Rightarrow> string \<Rightarrow> failure + 64 word" where
  "getSize n fs dir =
     (case Walk n dir sizeFn (fs, 0) of Inl f \<Rightarrow> Inl f | Inr s \<Rightarrow> Inr (snd s))"

subsection \<open>\<^verbatim>\<open>listFiles\<close> and \<^verbatim>\<open>listFilesRecursively\<close>\<close>

definition retained :: "bool \<Rightarrow> bool \<Rightarrow> info \<Rightarrow> bool" where
  "retained noFile noDir i \<longleftrightarrow> (fiIsDir i \<and> \<not> noDir) \<or> (\<not> fiIsDir i \<and> \<not> noFile)"

fun listLoop ::
  "nat \<Rightarrow> fsys \<Rightarrow> string \<Rightarrow> bool \<Rightarrow> bool \<Rightarrow> info list \<Rightarrow> fileInfo list \<Rightarrow> failure + fileInfo list"
where
  "listLoop n fs dir noFile noDir [] result = Inr result"
| "listLoop n fs dir noFile noDir (i # fi) result =
     (if retained noFile noDir i then
        (let filePath = Abs fs (Join dir (fiName i))
         in case getSize n fs filePath of
              Inl f \<Rightarrow> Inl f
            | Inr sz \<Rightarrow>
                listLoop n fs dir noFile noDir fi (result @ [\<lparr>file = filePath, size' = sz\<rparr>]))
      else listLoop n fs dir noFile noDir fi result)"

text \<open>The result pairs the entries with whether the returned error is not \<^verbatim>\<open>nil\<close>.\<close>

definition listFiles ::
  "nat \<Rightarrow> fsys \<Rightarrow> string \<Rightarrow> bool \<Rightarrow> bool \<Rightarrow> failure + fileInfo list \<times> bool"
where
  "listFiles n fs dir noFile noDir =
     (case ReadDir fs dir of
        None \<Rightarrow> Inr ([], True)
      | Some fi \<Rightarrow>
          (case listLoop n fs dir noFile noDir fi [] of
             Inl f \<Rightarrow> Inl f
           | Inr result \<Rightarrow> Inr (result, False)))"

definition listFn :: "nat \<Rightarrow> bool \<Rightarrow> bool \<Rightarrow> fileInfo list walkFn" where
  "listFn n noFile noDir path fi err s =
     (case fi of
        None \<Rightarrow> Inl NilDeref
      | Some i \<Rightarrow>
          if retained noFile noDir i then
            (let filePath = Abs (fst s) path
             in case getSize n (fst s) filePath of
                  Inl f \<Rightarrow> Inl f
                | Inr sz \<Rightarrow> Inr (fst s, snd s @ [\<lparr>file = filePath, size' = sz\<rparr>]))
          else Inr s)"

text \<open>\<^verbatim>\<open>Walk\<close> returns what the callback returned, so the error is always \<^verbatim>\<open>nil\<close>.\<close>

definition listFilesRecursively ::
  "nat \<Rightarrow> fsys \<Rightarrow> string \<Rightarrow> bool \<Rightarrow> bool \<Rightarrow> failure + fileInfo list \<times> bool"
where
  "listFilesRecursively n fs dir noFile noDir =
     (case Walk n dir (listFn n noFile noDir) (fs, []) of
        Inl f \<Rightarrow> Inl f
      | Inr s \<Rightarrow> Inr (snd s, False))"

subsection \<open>\<^verbatim>\<open>List\<close>\<close>

fun printLines :: "fsys \<Rightarrow> string list \<Rightarrow> fileInfo list \<Rightarrow> fsys" where
  "printLines fs f [] = fs"
| "printLines fs f (i # info) = printLines (writeTo fs f (manifestLine i)) f info"

definition List ::
  "nat \<Rightarrow> fsys \<Rightarrow> string \<Rightarrow> string \<Rightarrow> bool \<Rightarrow> bool \<Rightarrow> bool \<Rightarrow> failure + fsys"
where
  "List n fs directoryPath outputFile noFileFlag noDirFlag recursiveFlag =
     (case (if recursiveFlag
            then listFilesRecursively n fs directoryPath noFileFlag noDirFlag
            else listFiles n fs directoryPath noFileFlag noDirFlag) of
        Inl f \<Rightarrow> Inl f
      | Inr (info, e) \<Rightarrow>
          if e then Inl Exit1
          else (case openWrite False fs outputFile of
                  None \<Rightarrow> Inl Exit1
                | Some (fs1, f) \<Rightarrow> Inr (printLines fs1 f info)))"

subsection \<open>\<^verbatim>\<open>copyFile\<close>, \<^verbatim>\<open>readTextFile\<close> and \<^verbatim>\<open>Copy\<close>\<close>

text \<open>
  \<^verbatim>\<open>copyFile\<close> opens the source, creates (and truncates) the destination, and copies
  what the source holds at that moment. The result is the new file system and whether
  \<^verbatim>\<open>nil\<close> was returned.
\<close>

definition copyFile :: "fsys \<Rightarrow> string \<Rightarrow> string \<Rightarrow> fsys \<times> bool" where
  "copyFile fs src dest =
     (case Open fs src of
        None \<Rightarrow> (fs, False)
      | Some srcFile \<Rightarrow>
          (case Create fs dest of
             None \<Rightarrow> (fs, False)
           | Some (fs1, destFile) \<Rightarrow> (writeTo fs1 destFile (readAll fs1 srcFile), True)))"

text \<open>
  The error of \<^verbatim>\<open>os.Open\<close> is dropped; reading from the nil file fails at once and the
  loop is not entered.
\<close>

definition readTextFile :: "fsys \<Rightarrow> string \<Rightarrow> failure + string list" where
  "readTextFile fs inputFile =
     (case Open fs inputFile of None \<Rightarrow> Inr [] | Some f \<Rightarrow> readLines (readAll fs f) [])"

text \<open>
  The callback of \<^verbatim>\<open>Copy\<close>: the results of \<^verbatim>\<open>os.MkdirAll\<close> and of \<^verbatim>\<open>copyFile\<close> are
  dropped.
\<close>

definition copyFn :: "string \<Rightarrow> string \<Rightarrow> unit walkFn" where
  "copyFn directoryPath baseDir path fi err s =
     (case sliceFrom path (Index path baseDir) of
        Inl f \<Rightarrow> Inl f
      | Inr rest \<Rightarrow>
          (let dest = Join directoryPath rest
           in case fi of
                None \<Rightarrow> Inl NilDeref
              | Some i \<Rightarrow>
                  if fiIsDir i then Inr (fst (MkdirAll (fst s) dest), ())
                  else Inr (fst (copyFile (fst s) path dest), ())))"

fun copyDirs :: "nat \<Rightarrow> string \<Rightarrow> string list \<Rightarrow> fsys \<Rightarrow> failure + fsys" where
  "copyDirs n directoryPath [] fs = Inr fs"
| "copyDirs n directoryPath (dir # dirs) fs =
     (case Walk n dir (copyFn directoryPath (Base dir)) (fs, ()) of
        Inl f \<Rightarrow> Inl f
      | Inr s \<Rightarrow> copyDirs n directoryPath dirs (fst s))"

definition Copy :: "nat \<Rightarrow> fsys \<Rightarrow> string \<Rightarrow> string \<Rightarrow> failure + fsys" where
  "Copy n fs directoryPath inputPath =
     (let fs1 = fst (MkdirAll fs directoryPath)
      in case readTextFile fs1 inputPath of
           Inl f \<Rightarrow> Inl f
         | Inr dirs \<Rightarrow> copyDirs n directoryPath dirs fs1)"

subsection \<open>The entries a walk visits\<close>

text \<open>
  For the statements about the listings: the callback that records the path and the
  \<^verbatim>\<open>info\<close> of every call that has one, and what it means for a listing to hold the
  entries among them that the two flags retain.
\<close>

definition enumFn :: "(string \<times> info) list walkFn" where
  "enumFn path fi err s =
     (case fi of None \<Rightarrow> Inr s | Some i \<Rightarrow> Inr (fst s, snd s @ [(path, i)]))"

definition listed :: "bool \<Rightarrow> bool \<Rightarrow> fsys \<Rightarrow> (string \<times> info) list \<Rightarrow> fileInfo list \<Rightarrow> bool" where
  "listed noFile noDir fs es r \<longleftrightarrow>
     map file r = map (\<lambda>e. Abs fs (fst e)) (filter (\<lambda>e. retained noFile noDir (snd e)) es)"

subsection \<open>The tree below a path\<close>

text \<open>
  For the statement about \<^verbatim>\<open>Copy\<close>: the tree of files and directories below a key,
  the files with their bytes and the directories with their names in sorted order. It
  is defined when every file below the key can be opened and the names of every
  directory can be read, and the tree is less than \<open>n\<close> levels deep.
\<close>

datatype tree = Leaf string | Node "(string \<times> tree) list"

fun readTree :: "nat \<Rightarrow> fsys \<Rightarrow> string list \<Rightarrow> tree option" where
  "readTree 0 fs k = None"
| "readTree (Suc n) fs k =
     (case map_of (ents fs) k of
        Some (File c True) \<Rightarrow> Some (Leaf c)
      | Some (Dir sz True) \<Rightarrow>
          map_option Node
            (those (map (\<lambda>name. map_option (Pair name) (readTree n fs (k @ [name])))
                      (sort (childNames fs k))))
      | _ \<Rightarrow> None)"

text \<open>
  A name of a directory entry is not empty, holds no slash, and is neither \<^verbatim>\<open>.\<close> nor
  \<^verbatim>\<open>..\<close>; in a well-formed file system every key consists of such names. The
  absolute path of a key joins its names with slashes.
\<close>

definition goodName :: "string \<Rightarrow> bool" where
  "goodName x \<longleftrightarrow> x \<noteq> [] \<and> CHR ''/'' \<notin> set x \<and> x \<noteq> ''.'' \<and> x \<noteq> ''..''"

definition wellFormed :: "fsys \<Rightarrow> bool" where
  "wellFormed fs \<longleftrightarrow> list_all (list_all goodName) (map fst (ents fs))"

definition absPath :: "string list \<Rightarrow> string" where
  "absPath k = ''/'' @ joinSlash k"

text \<open>The entries of the table whose keys satisfy a predicate, in the order of the table.\<close>

definition keep :: "(string list \<Rightarrow> bool) \<Rightarrow> fsys \<Rightarrow> (string list \<times> entry) list" where
  "keep P fs = filter (\<lambda>x. P (fst x)) (ents fs)"

section \<open>Properties of the manifest format\<close>


lemma digit_cases: "d < 10 \<Longrightarrow> digit d \<in> set ''0123456789''"
  unfolding digit_def by (rule nth_mem) simp

lemma showNat_digits: "set (showNat n) \<subseteq> set ''0123456789''"
proof (induction n rule: showNat.induct)
  case (1 n)
  show ?case
  proof (cases "n < 10")
    case True
    then show ?thesis using digit_cases [of n] by (subst showNat.simps) simp
  next
    case False
    have "n mod 10 < 10" by simp
    then have "digit (n mod 10) \<in> set ''0123456789''" by (rule digit_cases)
    with False 1 show ?thesis by (subst showNat.simps) simp
  qed
qed

lemma showNat_nonempty: "showNat n \<noteq> []"
  by (subst showNat.simps) simp

lemma lastIndexFrom_absent: "c \<notin> set b \<Longrightarrow> lastIndexFrom b [c] i found = found"
  by (induction b arbitrary: i) auto

lemma lastIndexFrom_last:
  "c \<notin> set b \<Longrightarrow> lastIndexFrom (a @ c # b) [c] i found = int (i + length a)"
  by (induction a arbitrary: i found) (auto simp: lastIndexFrom_absent)

lemma LastIndex_last: "c \<notin> set b \<Longrightarrow> LastIndex (a @ c # b) [c] = int (length a)"
  by (simp add: LastIndex_def lastIndexFrom_last)

lemma LastIndex_absent: "c \<notin> set s \<Longrightarrow> LastIndex s [c] = - 1"
  by (simp add: LastIndex_def lastIndexFrom_absent)

lemma ReadString_line:
  "nl \<notin> set line \<Longrightarrow> ReadString (line @ nl # rest) = Some (line @ [nl], rest)"
proof -
  assume a: "nl \<notin> set line"
  then have b: "\<And>x. x \<in> set line \<Longrightarrow> x \<noteq> nl" by auto
  have "takeWhile (\<lambda>c. c \<noteq> nl) (line @ nl # rest) = line" using b by simp
  moreover have "dropWhile (\<lambda>c. c \<noteq> nl) (line @ nl # rest) = nl # rest" using b by simp
  ultimately show ?thesis by (simp add: ReadString_def)
qed

lemma ReadString_none: "nl \<notin> set buf \<Longrightarrow> ReadString buf = None"
  by (simp add: ReadString_def)


lemma spaceRunes_nonempty: "r \<in> set spaceRunes \<Longrightarrow> r \<noteq> []"
  by (auto simp: spaceRunes_def)

lemma spaceRunes_inner: "r \<in> set spaceRunes \<Longrightarrow> CHR 0x20 \<notin> set (tl r)"
  by (auto simp: spaceRunes_def)

lemma spaceRunes_last: "r \<in> set spaceRunes \<Longrightarrow> last r \<noteq> CHR ''B''"
  by (auto simp: spaceRunes_def)

lemma spaceWidth_0_iff: "spaceWidth s = 0 \<longleftrightarrow> (\<forall>r \<in> set spaceRunes. \<not> prefix r s)"
proof -
  have "r \<noteq> []" if "filter (\<lambda>r. prefix r s) spaceRunes = r # rs" for r rs
  proof -
    have "r \<in> set (filter (\<lambda>r. prefix r s) spaceRunes)" using that by simp
    then show ?thesis by (simp add: spaceRunes_nonempty)
  qed
  then have "spaceWidth s = 0 \<longleftrightarrow> filter (\<lambda>r. prefix r s) spaceRunes = []"
    by (auto simp: spaceWidth_def split: list.splits)
  then show ?thesis by (simp add: filter_empty_conv)
qed

lemma trimLeftN_id: "spaceWidth s = 0 \<Longrightarrow> trimLeftN n s = s"
  by (cases n) simp_all

lemma set_trimLeftN: "set (trimLeftN n s) \<subseteq> set s"
proof (induction n arbitrary: s)
  case 0
  show ?case by simp
next
  case (Suc n)
  have "set (trimLeftN n (drop (spaceWidth s) s)) \<subseteq> set (drop (spaceWidth s) s)"
    by (rule Suc.IH)
  also have "\<dots> \<subseteq> set s" by (rule set_drop_subset)
  finally show ?case by simp
qed


lemma spaceWidthEnd_0_iff: "spaceWidthEnd s = 0 \<longleftrightarrow> (\<forall>r \<in> set spaceRunes. \<not> suffix r s)"
proof -
  have "r \<noteq> []" if "filter (\<lambda>r. suffix r s) spaceRunes = r # rs" for r rs
  proof -
    have "r \<in> set (filter (\<lambda>r. suffix r s) spaceRunes)" using that by simp
    then show ?thesis by (simp add: spaceRunes_nonempty)
  qed
  then have "spaceWidthEnd s = 0 \<longleftrightarrow> filter (\<lambda>r. suffix r s) spaceRunes = []"
    by (auto simp: spaceWidthEnd_def split: list.splits)
  then show ?thesis by (simp add: filter_empty_conv)
qed

lemma set_trimRightN: "set (trimRightN n s) \<subseteq> set s"
proof (induction n arbitrary: s)
  case 0
  show ?case by simp
next
  case (Suc n)
  have "set (trimRightN n (take (length s - spaceWidthEnd s) s))
          \<subseteq> set (take (length s - spaceWidthEnd s) s)"
    by (rule Suc.IH)
  also have "\<dots> \<subseteq> set s" by (rule set_take_subset)
  finally show ?case by simp
qed

lemma set_TrimSpace: "set (TrimSpace s) \<subseteq> set s"
  unfolding TrimSpace_def Let_def
  using set_trimRightN set_trimLeftN by (rule subset_trans)

lemma spaceWidth_before_blank:
  assumes "spaceWidth p = 0" and "p \<noteq> []"
  shows "spaceWidth (p @ CHR 0x20 # q) = 0"
  unfolding spaceWidth_0_iff
proof
  fix r assume r: "r \<in> set spaceRunes"
  show "\<not> prefix r (p @ CHR 0x20 # q)"
  proof
    assume "prefix r (p @ CHR 0x20 # q)"
    then consider "prefix r p" | us where "r = p @ us" and "prefix us (CHR 0x20 # q)"
      by (auto simp: prefix_append)
    then show False
    proof cases
      case 1
      with assms(1) r show False by (simp add: spaceWidth_0_iff)
    next
      case 2
      show False
      proof (cases us)
        case Nil
        with 2 have "prefix r p" by simp
        with assms(1) r show False by (simp add: spaceWidth_0_iff)
      next
        case (Cons u us')
        with 2 have "u = CHR 0x20" by simp
        with 2 Cons assms(2) have "CHR 0x20 \<in> set (tl r)" by (cases p) auto
        with spaceRunes_inner [OF r] show False by simp
      qed
    qed
  qed
qed

lemma suffix_last: "suffix r s \<Longrightarrow> r \<noteq> [] \<Longrightarrow> last r = last s"
  by (auto simp: suffix_def)

lemma spaceWidthEnd_B: "spaceWidthEnd (u @ ''B'') = 0"
  unfolding spaceWidthEnd_0_iff
proof
  fix r assume r: "r \<in> set spaceRunes"
  show "\<not> suffix r (u @ ''B'')"
  proof
    assume "suffix r (u @ ''B'')"
    then have "last r = CHR ''B''"
      using suffix_last [of r "u @ ''B''"] spaceRunes_nonempty [OF r] by simp
    with spaceRunes_last [OF r] show False by simp
  qed
qed

lemma suffix_single: "suffix [c] (t @ [d]) \<longleftrightarrow> c = d"
  using snoc_suffix_snoc [of "[]" c t d] by simp

lemma spaceWidthEnd_nl: "spaceWidthEnd (t @ [nl]) = 1"
  by (simp add: spaceWidthEnd_def spaceRunes_def suffix_single)

lemma TrimSpace_line:
  assumes "spaceWidth p = 0" and "p \<noteq> []"
  shows "TrimSpace (p @ '' '' @ q @ ''B'' @ [nl]) = p @ '' '' @ q @ ''B''"
proof -
  let ?s = "p @ '' '' @ q @ ''B'' @ [nl]"
  let ?t = "p @ '' '' @ q @ ''B''"
  have "spaceWidth ?s = 0" using spaceWidth_before_blank [OF assms] by simp
  then have l: "trimLeftN (length ?s) ?s = ?s" by (rule trimLeftN_id)
  have e: "spaceWidthEnd ?s = 1" using spaceWidthEnd_nl [of ?t] by simp
  have t0: "spaceWidthEnd ?t = 0" using spaceWidthEnd_B [of "p @ '' '' @ q"] by simp
  have "trimRightN (length ?s) ?s = trimRightN (length ?t) ?t"
    using e by simp
  also have "\<dots> = ?t" using t0 by (cases "length ?t") simp_all
  finally show ?thesis using l by (simp add: TrimSpace_def)
qed


lemma fmtMB_form:
  "\<exists>a b c. b < 10 \<and> c < 10 \<and>
     fmtMB sz = (if sint sz < 0 then ''-'' else []) @ showNat a @ ''.'' @ [digit b, digit c]"
proof -
  define h where "h = hundredths (divMB (float64 (nat \<bar>sint sz\<bar>)))"
  have "h mod 100 div 10 < 10" by (simp add: less_mult_imp_div_less)
  moreover have "h mod 10 < 10" by simp
  moreover have "fmtMB sz = (if sint sz < 0 then ''-'' else []) @ showNat (h div 100) @ ''.'' @
      [digit (h mod 100 div 10), digit (h mod 10)]"
    by (simp add: fmtMB_def h_def Let_def)
  ultimately show ?thesis by blast
qed

lemma fmtMB_no_dash:
  assumes "0 \<le> sint sz"
  shows "CHR ''-'' \<notin> set (fmtMB sz)"
proof -
  define D where "D = set ''0123456789''"
  have nD: "CHR ''-'' \<notin> D" by (simp add: D_def)
  from fmtMB_form [of sz] obtain a b c where b: "b < 10" and c: "c < 10"
    and f: "fmtMB sz = showNat a @ ''.'' @ [digit b, digit c]"
    using assms by auto
  have "set (showNat a) \<subseteq> D" "digit b \<in> D" "digit c \<in> D"
    using showNat_digits [of a] digit_cases [OF b] digit_cases [OF c] by (simp_all add: D_def)
  then have "set (fmtMB sz) \<subseteq> insert CHR ''.'' D" unfolding f by auto
  with nD show ?thesis by auto
qed

lemma fmtMB_no_nl: "nl \<notin> set (fmtMB sz)"
proof -
  define D where "D = set ''0123456789''"
  have nD: "nl \<notin> D" by (simp add: D_def)
  from fmtMB_form [of sz] obtain a b c where b: "b < 10" and c: "c < 10"
    and f: "fmtMB sz = (if sint sz < 0 then ''-'' else []) @ showNat a @ ''.'' @ [digit b, digit c]"
    by auto
  have "set (showNat a) \<subseteq> D" "digit b \<in> D" "digit c \<in> D"
    using showNat_digits [of a] digit_cases [OF b] digit_cases [OF c] by (simp_all add: D_def)
  then have "set (fmtMB sz) \<subseteq> insert CHR ''-'' (insert CHR ''.'' D)" unfolding f by auto
  with nD show ?thesis by auto
qed

lemma readLines_step:
  assumes "nl \<notin> set (file i)" and "spaceWidth (file i) = 0" and "file i \<noteq> []"
    and "0 \<le> sint (size' i)"
  shows "readLines (manifestLine i @ rest) result = readLines rest (result @ [file i])"
proof -
  define num where "num = fmtMB (size' i)"
  define t where "t = file i @ '' - '' @ num @ ''MB''"
  have line: "manifestLine i @ rest = t @ nl # rest"
    by (simp add: manifestLine_def t_def num_def)
  have "nl \<notin> set t" using assms(1) fmtMB_no_nl by (simp add: t_def num_def)
  then have rs: "ReadString (manifestLine i @ rest) = Some (t @ [nl], rest)"
    unfolding line by (rule ReadString_line)
  have ts: "TrimSpace (t @ [nl]) = t"
    using TrimSpace_line [OF assms(2,3), of "''- '' @ num @ ''M''"] by (simp add: t_def)
  have "CHR ''-'' \<notin> set ('' '' @ num @ ''MB'')"
    using fmtMB_no_dash [OF assms(4)] by (simp add: num_def)
  then have "LastIndex ((file i @ '' '') @ CHR ''-'' # ('' '' @ num @ ''MB'')) ''-''
               = int (length (file i @ '' ''))"
    by (rule LastIndex_last)
  then have li: "LastIndex t ''-'' = int (length (file i)) + 1" by (simp add: t_def)
  have sl: "slice t 0 (LastIndex t ''-'' - 1) = Inr (file i)"
    unfolding li by (simp add: slice_def t_def)
  show ?thesis
    by (subst readLines.simps) (simp add: rs ts sl Let_def)
qed

lemma readLines_manifest:
  assumes "\<forall>i \<in> set info. nl \<notin> set (file i) \<and> spaceWidth (file i) = 0 \<and> file i \<noteq> []
             \<and> 0 \<le> sint (size' i)"
  shows "readLines (concat (map manifestLine info)) result = Inr (result @ map file info)"
  using assms
proof (induction info arbitrary: result)
  case Nil
  show ?case by (subst readLines.simps) (simp add: ReadString_none)
next
  case (Cons i info)
  then show ?case by (simp add: readLines_step)
qed

lemma readLines_no_dash:
  assumes "CHR ''-'' \<notin> set line" and "nl \<notin> set line"
  shows "readLines (line @ nl # rest) result = Inl SliceBounds"
proof -
  have rs: "ReadString (line @ nl # rest) = Some (line @ [nl], rest)"
    using assms(2) by (rule ReadString_line)
  have "CHR ''-'' \<notin> set (line @ [nl])" using assms(1) by simp
  then have "CHR ''-'' \<notin> set (TrimSpace (line @ [nl]))" using set_TrimSpace by blast
  then have "LastIndex (TrimSpace (line @ [nl])) ''-'' = - 1" by (rule LastIndex_absent)
  then have "slice (TrimSpace (line @ [nl])) 0 (LastIndex (TrimSpace (line @ [nl])) ''-'' - 1)
               = Inl SliceBounds"
    by (simp add: slice_def)
  then show ?thesis by (subst readLines.simps) (simp add: rs Let_def)
qed

lemma readLines_partial:
  "nl \<notin> set partial \<Longrightarrow> readLines (whole @ partial) result = readLines whole result"
proof (induction whole result rule: readLines.induct)
  case (1 buf result)
  show ?case
  proof (cases "nl \<in> set buf")
    case False
    with 1(2) show ?thesis
      by (subst readLines.simps, subst (2) readLines.simps) (simp add: ReadString_none)
  next
    case True
    then obtain line rest where buf: "buf = line @ nl # rest" and line: "nl \<notin> set line"
      by (meson split_list_first)
    have rs: "ReadString buf = Some (line @ [nl], rest)"
      unfolding buf using line by (rule ReadString_line)
    have rs': "ReadString (buf @ partial) = Some (line @ [nl], rest @ partial)"
      using ReadString_line [OF line, of "rest @ partial"] by (simp add: buf)
    show ?thesis
    proof (cases "slice (TrimSpace (line @ [nl])) 0 (LastIndex (TrimSpace (line @ [nl])) ''-'' - 1)")
      case (Inl f)
      then show ?thesis
        by (subst readLines.simps, subst (2) readLines.simps) (simp add: rs rs' Let_def)
    next
      case (Inr p)
      have "readLines (rest @ partial) (result @ [p]) = readLines rest (result @ [p])"
        using 1(1) [OF rs refl refl refl Inr 1(2)] .
      with Inr show ?thesis
        by (subst readLines.simps, subst (2) readLines.simps) (simp add: rs rs' Let_def)
    qed
  qed
qed


lemma slice_fails: "slice s lo hi = Inl f \<Longrightarrow> f = SliceBounds"
  by (auto simp: slice_def split: if_splits)

lemma readLines_bad_line:
  assumes "CHR ''-'' \<notin> set line" and "nl \<notin> set line"
  shows "pre = [] \<or> last pre = nl \<Longrightarrow> readLines (pre @ line @ nl # rest) result = Inl SliceBounds"
proof (induction "length pre" arbitrary: pre result rule: less_induct)
  case less
  show ?case
  proof (cases "pre = []")
    case True
    then show ?thesis using readLines_no_dash [OF assms] by simp
  next
    case False
    with less(2) have "nl \<in> set pre" using last_in_set by metis
    then obtain l1 pre' where pre: "pre = l1 @ nl # pre'" and l1: "nl \<notin> set l1"
      by (meson split_list_first)
    have pre': "pre' = [] \<or> last pre' = nl" using less(2) False pre by (auto split: if_splits)
    have rs: "ReadString (pre @ line @ nl # rest) = Some (l1 @ [nl], pre' @ line @ nl # rest)"
      using ReadString_line [OF l1, of "pre' @ line @ nl # rest"] by (simp add: pre)
    show ?thesis
    proof (cases "slice (TrimSpace (l1 @ [nl])) 0 (LastIndex (TrimSpace (l1 @ [nl])) ''-'' - 1)")
      case (Inl f)
      then show ?thesis using slice_fails [OF Inl]
        by (subst readLines.simps) (simp add: rs Let_def)
    next
      case (Inr p)
      have "readLines (pre' @ line @ nl # rest) (result @ [p]) = Inl SliceBounds"
        using less(1) [of pre' "result @ [p]"] pre' pre by simp
      with Inr show ?thesis
        by (subst readLines.simps) (simp add: rs Let_def)
    qed
  qed
qed

lemma readLines_length:
  "readLines buf result = Inr paths \<Longrightarrow> length paths = length result + count_list buf nl"
proof (induction buf result rule: readLines.induct)
  case (1 buf result)
  show ?case
  proof (cases "nl \<in> set buf")
    case False
    then have "count_list buf nl = 0" by (simp add: count_list_0_iff)
    with 1(2) False show ?thesis
      by (subst (asm) readLines.simps) (simp add: ReadString_none)
  next
    case True
    then obtain line rest where buf: "buf = line @ nl # rest" and line: "nl \<notin> set line"
      by (meson split_list_first)
    have rs: "ReadString buf = Some (line @ [nl], rest)"
      unfolding buf using line by (rule ReadString_line)
    have cnt: "count_list buf nl = Suc (count_list rest nl)"
      using line by (simp add: buf count_list_0_iff)
    show ?thesis
    proof (cases "slice (TrimSpace (line @ [nl])) 0 (LastIndex (TrimSpace (line @ [nl])) ''-'' - 1)")
      case (Inl f)
      with 1(2) show ?thesis
        by (subst (asm) readLines.simps) (simp add: rs Let_def)
    next
      case (Inr p)
      with 1(2) have "readLines rest (result @ [p]) = Inr paths"
        by (subst (asm) readLines.simps) (simp add: rs Let_def)
      then have "length paths = length (result @ [p]) + count_list rest nl"
        using 1(1) [OF rs refl refl refl Inr] by simp
      then show ?thesis by (simp add: cnt)
    qed
  qed
qed

lemma keyOf_cwd: "cwd fs' = cwd fs \<Longrightarrow> keyOf fs' p = keyOf fs p"
  by (simp add: keyOf_def)

lemma cwd_setEntry [simp]: "cwd (setEntry fs k e) = cwd fs"
  by (simp add: setEntry_def)

lemma mkdirSize_setEntry [simp]: "mkdirSize (setEntry fs k e) = mkdirSize fs"
  by (simp add: setEntry_def)

lemma map_of_setEntry [simp]: "map_of (ents (setEntry fs k e)) = (map_of (ents fs))(k \<mapsto> e)"
  by (simp add: setEntry_def update_conv')

lemma openWrite_Some:
  assumes "openWrite t fs p = Some (fs1, f)"
  shows "keyOf fs p = Some f" and "cwd fs1 = cwd fs"
    and "\<exists>c. map_of (ents fs1) f = Some (File c True)"
    and "readAll fs1 f = (if t then [] else readAll fs f)"
  using assms
  by (auto simp: openWrite_def readAll_def split: option.splits entry.splits bool.splits if_splits)

lemma writeTo_File:
  "map_of (ents fs) f = Some (File c a) \<Longrightarrow>
     map_of (ents (writeTo fs f bytes)) f = Some (File (c @ bytes) a)"
  by (simp add: writeTo_def)

lemma cwd_writeTo [simp]: "cwd (writeTo fs f bytes) = cwd fs"
  by (simp add: writeTo_def split: option.splits entry.splits)

lemma printLines_File:
  "map_of (ents fs) f = Some (File c a) \<Longrightarrow>
     map_of (ents (printLines fs f info)) f = Some (File (c @ concat (map manifestLine info)) a)"
proof (induction info arbitrary: fs c)
  case Nil
  then show ?case by simp
next
  case (Cons i info)
  have "map_of (ents (writeTo fs f (manifestLine i))) f = Some (File (c @ manifestLine i) a)"
    using Cons.prems by (rule writeTo_File)
  from Cons.IH [OF this] show ?case by simp
qed

lemma cwd_printLines [simp]: "cwd (printLines fs f info) = cwd fs"
  by (induction info arbitrary: fs) simp_all

lemma isDigit_digit: "d < 10 \<Longrightarrow> isDigit (digit d)"
  unfolding isDigit_def by (rule digit_cases)

lemma isDigit_not_minus: "isDigit c \<Longrightarrow> c \<noteq> CHR ''-''"
  by (auto simp: isDigit_def)

lemma showNat_all_digits: "list_all isDigit (showNat n)"
  unfolding list_all_iff isDigit_def using showNat_digits [of n] by blast

lemma twoDecimals_fmtMB: "twoDecimals (fmtMB sz)"
proof -
  from fmtMB_form [of sz] obtain a b c where b: "b < 10" and c: "c < 10"
    and f: "fmtMB sz = (if sint sz < 0 then ''-'' else []) @ showNat a @ ''.'' @ [digit b, digit c]"
    by auto
  define ip where "ip = showNat a"
  have ne: "ip \<noteq> []" by (simp add: ip_def showNat_nonempty)
  have all: "list_all isDigit ip" by (simp add: ip_def showNat_all_digits)
  then have "isDigit (hd ip)" using ne by (cases ip) simp_all
  then have "hd ip \<noteq> CHR ''-''" by (rule isDigit_not_minus)
  then have nd: "\<not> prefix ''-'' (ip @ t)" for t using ne by (cases ip) simp_all
  have r: "rev (ip @ ''.'' @ [digit b, digit c]) = digit c # digit b # CHR ''.'' # rev ip"
    by simp
  have t: "(if prefix ''-'' (fmtMB sz) then tl (fmtMB sz) else fmtMB sz)
             = ip @ ''.'' @ [digit b, digit c]"
  proof (cases "sint sz < 0")
    case True
    then show ?thesis by (simp add: f ip_def)
  next
    case False
    then have "fmtMB sz = ip @ ''.'' @ [digit b, digit c]" by (simp add: f ip_def)
    then show ?thesis using nd by simp
  qed
  have "list_all isDigit (rev ip)" using all by simp
  moreover have "rev ip \<noteq> []" using ne by simp
  ultimately show ?thesis
    unfolding twoDecimals_def t r using isDigit_digit [OF b] isDigit_digit [OF c] by simp
qed

lemma Open_after_print:
  assumes "openWrite t fs outputFile = Some (fs1, f)"
  shows "Open (printLines fs1 f info) outputFile = Some f"
    and "readAll (printLines fs1 f info) f = readAll fs1 f @ concat (map manifestLine info)"
proof -
  from openWrite_Some [OF assms] obtain c where
    k: "keyOf fs outputFile = Some f" and w: "cwd fs1 = cwd fs"
    and c: "map_of (ents fs1) f = Some (File c True)"
    by auto
  have k': "keyOf (printLines fs1 f info) outputFile = Some f"
    using k keyOf_cwd [of "printLines fs1 f info" fs outputFile] w by simp
  note p = printLines_File [OF c, of info]
  show "Open (printLines fs1 f info) outputFile = Some f"
    by (simp add: Open_def k' p)
  show "readAll (printLines fs1 f info) f = readAll fs1 f @ concat (map manifestLine info)"
    by (simp add: readAll_def p c)
qed

section \<open>Properties of the listing\<close>

lemma map_insort_key: "map f (insort_key f x xs) = insort (f x) (map f xs)"
  by (induction xs) auto

lemma map_sort_key: "map f (sort_key f xs) = sort (map f xs)"
  by (induction xs) (simp_all add: map_insort_key)

lemma those_map_Some:
  assumes "\<And>x y. x \<in> set xs \<Longrightarrow> g x = Some y \<Longrightarrow> h y = x"
  shows "those (map g xs) = Some ys \<Longrightarrow> map h ys = xs"
  using assms
proof (induction xs arbitrary: ys)
  case Nil
  then show ?case by simp
next
  case (Cons x xs)
  from Cons.prems(1) obtain y ys' where y: "g x = Some y" and t: "those (map g xs) = Some ys'"
    and ys: "ys = y # ys'"
    by (auto split: option.splits)
  have "map h ys' = xs" using Cons.IH [OF t] Cons.prems(2) by simp
  moreover have "h y = x" using Cons.prems(2) [of x y] y by simp
  ultimately show ?case by (simp add: ys)
qed

lemma fiName_statKey: "statKey fs (k @ [n]) = Some i \<Longrightarrow> fiName i = n"
  by (auto simp: statKey_def nameOf_def split: option.splits entry.splits)

lemma ReadDir_names:
  assumes "ReadDir fs dir = Some fi"
  shows "\<exists>k. keyOf fs dir = Some k \<and> map fiName fi = sort (childNames fs k)"
proof -
  from assms obtain k sz xs where k: "keyOf fs dir = Some k"
    and t: "those (map (\<lambda>n. statKey fs (k @ [n])) (childNames fs k)) = Some xs"
    and fi: "fi = sort_key fiName xs"
    by (auto simp: ReadDir_def split: option.splits entry.splits bool.splits)
  have "map fiName xs = childNames fs k"
    using t by (rule those_map_Some [rotated]) (rule fiName_statKey)
  then show ?thesis using k by (simp add: fi map_sort_key)
qed

lemma listLoop_files:
  "listLoop n fs dir noFile noDir fi acc = Inr result \<Longrightarrow>
     map file result =
       map file acc @ map (\<lambda>i. Abs fs (Join dir (fiName i))) (filter (retained noFile noDir) fi)"
proof (induction fi arbitrary: acc)
  case Nil
  then show ?case by simp
next
  case (Cons i fi)
  show ?case
  proof (cases "retained noFile noDir i")
    case False
    with Cons show ?thesis by simp
  next
    case True
    with Cons.prems obtain sz where
      "listLoop n fs dir noFile noDir fi
         (acc @ [\<lparr>file = Abs fs (Join dir (fiName i)), size' = sz\<rparr>]) = Inr result"
      by (auto simp: Let_def split: sum.splits)
    from Cons.IH [OF this] True show ?thesis by simp
  qed
qed

lemma listLoop_none_retained:
  "\<forall>i \<in> set fi. \<not> retained noFile noDir i \<Longrightarrow> listLoop n fs dir noFile noDir fi acc = Inr acc"
  by (induction fi) simp_all

lemma listLoop_returns:
  "\<forall>i \<in> set fi. retained noFile noDir i \<longrightarrow>
       (\<exists>sz. getSize n fs (Abs fs (Join dir (fiName i))) = Inr sz) \<Longrightarrow>
     \<exists>result. listLoop n fs dir noFile noDir fi acc = Inr result"
proof (induction fi arbitrary: acc)
  case Nil
  then show ?case by simp
next
  case (Cons i fi)
  show ?case
  proof (cases "retained noFile noDir i")
    case False
    with Cons show ?thesis by simp
  next
    case True
    with Cons.prems obtain sz where "getSize n fs (Abs fs (Join dir (fiName i))) = Inr sz"
      by auto
    with True Cons.IH [of "acc @ [\<lparr>file = Abs fs (Join dir (fiName i)), size' = sz\<rparr>]"] Cons.prems
    show ?thesis by (simp add: Let_def)
  qed
qed

section \<open>Properties of the walk\<close>

lemma walk_failures:
  fixes fn :: "'a walkFn"
  shows "\<forall>path fi err s f. fn path fi err s = Inl f \<longrightarrow> f \<in> F \<Longrightarrow>
           walk n fn path i s = Inl f \<Longrightarrow> f \<in> insert OutOfFuel F"
    and "\<forall>path fi err s f. fn path fi err s = Inl f \<longrightarrow> f \<in> F \<Longrightarrow>
           walkNames n fn path names s = Inl f \<Longrightarrow> f \<in> insert OutOfFuel F"
proof (induction n fn path i s and n fn path names s rule: walk_walkNames.induct)
  case (1 fn path fi s)
  then show ?case by simp
next
  case (2 n fn path fi s)
  note fn = "2.prems"(1)
  show ?case
  proof (cases "fiIsDir fi")
    case False
    with "2.prems"(2) have "fn path (Some fi) False s = Inl f" by simp
    then show ?thesis using fn by blast
  next
    case True
    show ?thesis
    proof (cases "readDirNames (fst s) path")
      case None
      with True "2.prems"(2) have "fn path (Some fi) True s = Inl f" by simp
      then show ?thesis using fn by blast
    next
      case (Some names)
      show ?thesis
      proof (cases "fn path (Some fi) False s")
        case (Inl g)
        with True Some "2.prems"(2) have "f = g" by simp
        with Inl fn show ?thesis by blast
      next
        case (Inr s1)
        with True Some "2.prems"(2) have "walkNames n fn path names s1 = Inl f" by simp
        then show ?thesis using "2.IH" [OF _ Some Inr fn] True by simp
      qed
    qed
  qed
next
  case (3 n fn path s)
  then show ?case by simp
next
  case (4 n fn path name names s)
  note fn = "4.prems"(1)
  define r where "r = (case Lstat (fst s) (Join path name) of
              None \<Rightarrow> fn (Join path name) None True s
            | Some fi \<Rightarrow> walk n fn (Join path name) fi s)"
  show ?case
  proof (cases r)
    case (Inl g)
    then have g: "f = g" using "4.prems"(2) by (simp add: r_def)
    show ?thesis
    proof (cases "Lstat (fst s) (Join path name)")
      case None
      with Inl have "fn (Join path name) None True s = Inl g" by (simp add: r_def)
      then show ?thesis using fn g by blast
    next
      case (Some fi)
      with Inl have "walk n fn (Join path name) fi s = Inl g" by (simp add: r_def)
      then show ?thesis using "4.IH"(1) [OF Some fn] g by simp
    qed
  next
    case (Inr s1)
    then have "walkNames n fn path names s1 = Inl f" using "4.prems"(2) by (simp add: r_def)
    then show ?thesis using "4.IH"(2) [OF Inr [unfolded r_def] fn] by simp
  qed
qed

lemma Walk_failures:
  fixes fn :: "'a walkFn"
  assumes "\<And>path fi err s f. fn path fi err s = Inl f \<Longrightarrow> f \<in> F"
  shows "Walk n root fn s = Inl f \<Longrightarrow> f \<in> insert OutOfFuel F"
proof -
  assume w: "Walk n root fn s = Inl f"
  have a: "\<forall>path fi err s f. fn path fi err s = Inl f \<longrightarrow> f \<in> F" using assms by blast
  show ?thesis
  proof (cases "Lstat (fst s) root")
    case None
    with w have "fn root None True s = Inl f" by (simp add: Walk_def)
    then show ?thesis using a by blast
  next
    case (Some fi)
    with w have "walk n fn root fi s = Inl f" by (simp add: Walk_def)
    then show ?thesis using walk_failures(1) [OF a] by blast
  qed
qed

lemma readLines_failures: "readLines buf acc = Inl f \<Longrightarrow> f = SliceBounds"
proof (induction buf acc rule: readLines.induct)
  case (1 buf result)
  show ?case
  proof (cases "ReadString buf")
    case None
    with 1(2) show ?thesis by (subst (asm) readLines.simps) simp
  next
    case (Some lr)
    obtain line rest where lr: "lr = (line, rest)" by (cases lr)
    show ?thesis
    proof (cases "slice (TrimSpace line) 0 (LastIndex (TrimSpace line) ''-'' - 1)")
      case (Inl g)
      with 1(2) Some lr slice_fails [OF Inl] show ?thesis
        by (subst (asm) readLines.simps) (simp add: Let_def)
    next
      case (Inr p)
      with 1(2) Some lr have "readLines rest (result @ [p]) = Inl f"
        by (subst (asm) readLines.simps) (simp add: Let_def)
      then show ?thesis using 1(1) [OF Some [unfolded lr] refl refl refl Inr] by simp
    qed
  qed
qed

lemma copyFn_failures:
  "copyFn directoryPath baseDir path fi err s = Inl f \<Longrightarrow> f \<in> {SliceBounds, NilDeref}"
  by (auto simp: copyFn_def sliceFrom_def Let_def dest: slice_fails split: sum.splits option.splits if_splits)

lemma copyDirs_failures:
  "copyDirs n directoryPath dirs fs = Inl f \<Longrightarrow> f \<in> {OutOfFuel, SliceBounds, NilDeref}"
proof (induction dirs arbitrary: fs)
  case Nil
  then show ?case by simp
next
  case (Cons dir dirs)
  show ?case
  proof (cases "Walk n dir (copyFn directoryPath (Base dir)) (fs, ())")
    case (Inl g)
    with Cons.prems have "f = g" by simp
    with Walk_failures [OF copyFn_failures Inl] show ?thesis by simp
  next
    case (Inr s)
    with Cons show ?thesis by simp
  qed
qed

lemma Copy_failures:
  "Copy n fs directoryPath inputPath = Inl f \<Longrightarrow> f \<in> {OutOfFuel, SliceBounds, NilDeref}"
  by (auto simp: Copy_def Let_def readTextFile_def split: sum.splits option.splits
      dest: readLines_failures copyDirs_failures)

section \<open>The sum computed by \<^verbatim>\<open>getSize\<close>\<close>

lemma sizeFn_walkNames_acc:
  assumes w: "\<And>p i fs. \<exists>r. \<forall>a. walk n sizeFn p i (fs, a)
                 = (case r of Inl f \<Rightarrow> Inl f | Inr v \<Rightarrow> Inr (fs, a + v))"
  shows "\<exists>r. \<forall>a. walkNames n sizeFn p names (fs, a)
                 = (case r of Inl f \<Rightarrow> Inl f | Inr v \<Rightarrow> Inr (fs, a + v))"
proof (induction names)
  case Nil
  have "\<forall>a. walkNames n sizeFn p [] (fs, a)
          = (case Inr 0 of Inl f \<Rightarrow> Inl f | Inr v \<Rightarrow> Inr (fs, a + v))" by simp
  then show ?case by blast
next
  case (Cons name names)
  then obtain r2 where r2: "\<And>a. walkNames n sizeFn p names (fs, a)
                 = (case r2 of Inl f \<Rightarrow> Inl f | Inr v \<Rightarrow> Inr (fs, a + v))" by blast
  show ?case
  proof (cases "Lstat fs (Join p name)")
    case None
    then have "\<forall>a. walkNames n sizeFn p (name # names) (fs, a)
          = (case Inl NilDeref of Inl f \<Rightarrow> Inl f | Inr v \<Rightarrow> Inr (fs, a + v))"
      by (simp add: sizeFn_def)
    then show ?thesis by blast
  next
    case (Some fi)
    from w [of "Join p name" fi fs] obtain r1 where
      r1: "\<And>a. walk n sizeFn (Join p name) fi (fs, a)
                 = (case r1 of Inl f \<Rightarrow> Inl f | Inr v \<Rightarrow> Inr (fs, a + v))" by blast
    have "\<forall>a. walkNames n sizeFn p (name # names) (fs, a)
          = (case (case r1 of Inl f \<Rightarrow> Inl f
                   | Inr v1 \<Rightarrow> (case r2 of Inl f \<Rightarrow> Inl f | Inr v2 \<Rightarrow> Inr (v1 + v2))) of
               Inl f \<Rightarrow> Inl f | Inr v \<Rightarrow> Inr (fs, a + v))"
      using Some by (simp add: r1 r2 add.assoc split: sum.splits)
    then show ?thesis by blast
  qed
qed

lemma sizeFn_walk_acc:
  "\<exists>r. \<forall>a. walk n sizeFn p i (fs, a)
                 = (case r of Inl f \<Rightarrow> Inl f | Inr v \<Rightarrow> Inr (fs, a + v))"
proof (induction n arbitrary: p i fs)
  case 0
  have "\<forall>a. walk 0 sizeFn p i (fs, a)
           = (case Inl OutOfFuel of Inl f \<Rightarrow> Inl f | Inr v \<Rightarrow> Inr (fs, a + v))" by simp
  then show ?case by blast
next
  case (Suc n)
  show ?case
  proof (cases "fiIsDir i \<and> readDirNames fs p \<noteq> None")
    case False
    then have "\<forall>a. walk (Suc n) sizeFn p i (fs, a)
           = (case Inr (fiSize i) of Inl f \<Rightarrow> Inl f | Inr v \<Rightarrow> Inr (fs, a + v))"
      by (auto simp: sizeFn_def)
    then show ?thesis by blast
  next
    case True
    then obtain names where n: "readDirNames fs p = Some names" and d: "fiIsDir i" by auto
    from sizeFn_walkNames_acc [of n p names fs, OF Suc.IH] obtain r where
      r: "\<And>a. walkNames n sizeFn p names (fs, a)
                 = (case r of Inl f \<Rightarrow> Inl f | Inr v \<Rightarrow> Inr (fs, a + v))" by blast
    have "\<forall>a. walk (Suc n) sizeFn p i (fs, a)
           = (case (case r of Inl f \<Rightarrow> Inl f | Inr v \<Rightarrow> Inr (fiSize i + v)) of
                Inl f \<Rightarrow> Inl f | Inr v \<Rightarrow> Inr (fs, a + v))"
      using n d by (simp add: sizeFn_def r add.assoc split: sum.splits)
    then show ?thesis by blast
  qed
qed

lemma Walk_sizeFn_acc:
  assumes "getSize n fs p = Inr v"
  shows "Lstat fs p \<noteq> None" and "walk n sizeFn p (the (Lstat fs p)) (fs, a) = Inr (fs, a + v)"
proof -
  show l: "Lstat fs p \<noteq> None"
    using assms by (auto simp: getSize_def Walk_def sizeFn_def split: option.splits)
  then obtain fi where fi: "Lstat fs p = Some fi" by auto
  from sizeFn_walk_acc [of n p fi fs] obtain r where
    r: "\<And>a. walk n sizeFn p fi (fs, a)
                 = (case r of Inl f \<Rightarrow> Inl f | Inr v \<Rightarrow> Inr (fs, a + v))" by blast
  from assms fi have "r = Inr v"
    by (cases r) (auto simp: getSize_def Walk_def r)
  then show "walk n sizeFn p (the (Lstat fs p)) (fs, a) = Inr (fs, a + v)"
    using fi by (simp add: r)
qed

lemma walkNames_sizeFn_sum:
  assumes "\<forall>name\<in>set names. getSize n fs (Join p name) = Inr (g name)"
  shows "walkNames n sizeFn p names (fs, a) = Inr (fs, a + sum_list (map g names))"
  using assms
proof (induction names arbitrary: a)
  case Nil
  then show ?case by simp
next
  case (Cons name names)
  then have g: "getSize n fs (Join p name) = Inr (g name)" by simp
  from Walk_sizeFn_acc [OF g] obtain fi where fi: "Lstat fs (Join p name) = Some fi"
    and w: "\<And>a. walk n sizeFn (Join p name) fi (fs, a) = Inr (fs, a + g name)"
    by auto
  from Cons have "walkNames n sizeFn p names (fs, a + g name)
                    = Inr (fs, a + g name + sum_list (map g names))" by simp
  then show ?case using fi by (simp add: w add.assoc)
qed

lemma distinct_childNames: "distinct (childNames fs k)"
  by (simp add: childNames_def)

lemma sum_list_sort_distinct:
  fixes g :: "'a::linorder \<Rightarrow> 'b::comm_monoid_add"
  assumes "distinct xs"
  shows "sum_list (map g (sort xs)) = sum_list (map g xs)"
proof -
  have "sum_list (map g (sort xs)) = sum g (set (sort xs))"
    using assms by (intro sum_list_distinct_conv_sum_set) simp
  also have "\<dots> = sum_list (map g xs)"
    using assms by (simp add: sum_list_distinct_conv_sum_set)
  finally show ?thesis .
qed

section \<open>The listings and the two flags\<close>

lemma listFn_excluded:
  "listFn m True True path fi err s = (case fi of None \<Rightarrow> Inl NilDeref | Some i \<Rightarrow> Inr s)"
  by (simp add: listFn_def retained_def split: option.splits)

lemma excluded_walkNames:
  assumes w: "\<And>p i. \<exists>r. (\<forall>a. walk n sizeFn p i (fs, a)
                 = (case r of Inl f \<Rightarrow> Inl f | Inr v \<Rightarrow> Inr (fs, a + v)))
             \<and> (\<forall>acc. walk n (listFn m True True) p i (fs, acc)
                 = (case r of Inl f \<Rightarrow> Inl f | Inr v \<Rightarrow> Inr (fs, acc)))"
  shows "\<exists>r. (\<forall>a. walkNames n sizeFn p names (fs, a)
                 = (case r of Inl f \<Rightarrow> Inl f | Inr v \<Rightarrow> Inr (fs, a + v)))
             \<and> (\<forall>acc. walkNames n (listFn m True True) p names (fs, acc)
                 = (case r of Inl f \<Rightarrow> Inl f | Inr v \<Rightarrow> Inr (fs, acc)))"
proof (induction names)
  case Nil
  have "(\<forall>a. walkNames n sizeFn p [] (fs, a)
          = (case Inr 0 of Inl f \<Rightarrow> Inl f | Inr v \<Rightarrow> Inr (fs, a + v)))
      \<and> (\<forall>acc. walkNames n (listFn m True True) p [] (fs, acc)
                 = (case (Inr 0 :: failure + 64 word) of Inl f \<Rightarrow> Inl f | Inr v \<Rightarrow> Inr (fs, acc)))"
    by simp
  then show ?case by blast
next
  case (Cons name names)
  then obtain r2 where r2: "\<And>a. walkNames n sizeFn p names (fs, a)
                 = (case r2 of Inl f \<Rightarrow> Inl f | Inr v \<Rightarrow> Inr (fs, a + v))"
     and l2: "\<And>acc. walkNames n (listFn m True True) p names (fs, acc)
                 = (case r2 of Inl f \<Rightarrow> Inl f | Inr v \<Rightarrow> Inr (fs, acc))" by blast
  show ?case
  proof (cases "Lstat fs (Join p name)")
    case None
    then have "(\<forall>a. walkNames n sizeFn p (name # names) (fs, a)
          = (case Inl NilDeref of Inl f \<Rightarrow> Inl f | Inr v \<Rightarrow> Inr (fs, a + v)))
       \<and> (\<forall>acc. walkNames n (listFn m True True) p (name # names) (fs, acc)
          = (case (Inl NilDeref :: failure + 64 word) of Inl f \<Rightarrow> Inl f | Inr v \<Rightarrow> Inr (fs, acc)))"
      by (simp add: sizeFn_def listFn_excluded)
    then show ?thesis by blast
  next
    case (Some fi)
    from w [of "Join p name" fi] obtain r1 where
      r1: "\<And>a. walk n sizeFn (Join p name) fi (fs, a)
                 = (case r1 of Inl f \<Rightarrow> Inl f | Inr v \<Rightarrow> Inr (fs, a + v))"
      and l1: "\<And>acc. walk n (listFn m True True) (Join p name) fi (fs, acc)
                 = (case r1 of Inl f \<Rightarrow> Inl f | Inr v \<Rightarrow> Inr (fs, acc))" by blast
    define r where "r = (case r1 of Inl f \<Rightarrow> Inl f
                   | Inr v1 \<Rightarrow> (case r2 of Inl f \<Rightarrow> Inl f | Inr v2 \<Rightarrow> Inr (v1 + v2)))"
    have "\<forall>a. walkNames n sizeFn p (name # names) (fs, a)
          = (case r of Inl f \<Rightarrow> Inl f | Inr v \<Rightarrow> Inr (fs, a + v))"
      using Some by (simp add: r_def r1 r2 add.assoc split: sum.splits)
    moreover have "\<forall>acc. walkNames n (listFn m True True) p (name # names) (fs, acc)
          = (case r of Inl f \<Rightarrow> Inl f | Inr v \<Rightarrow> Inr (fs, acc))"
      using Some by (simp add: r_def l1 l2 split: sum.splits)
    ultimately show ?thesis by blast
  qed
qed

lemma excluded_walk:
  "\<exists>r. (\<forall>a. walk n sizeFn p i (fs, a)
                 = (case r of Inl f \<Rightarrow> Inl f | Inr v \<Rightarrow> Inr (fs, a + v)))
      \<and> (\<forall>acc. walk n (listFn m True True) p i (fs, acc)
                 = (case r of Inl f \<Rightarrow> Inl f | Inr v \<Rightarrow> Inr (fs, acc)))"
proof (induction n arbitrary: p i)
  case 0
  have "(\<forall>a. walk 0 sizeFn p i (fs, a)
           = (case Inl OutOfFuel of Inl f \<Rightarrow> Inl f | Inr v \<Rightarrow> Inr (fs, a + v)))
      \<and> (\<forall>acc. walk 0 (listFn m True True) p i (fs, acc)
           = (case (Inl OutOfFuel :: failure + 64 word) of Inl f \<Rightarrow> Inl f | Inr v \<Rightarrow> Inr (fs, acc)))"
    by simp
  then show ?case by blast
next
  case (Suc n)
  show ?case
  proof (cases "fiIsDir i \<and> readDirNames fs p \<noteq> None")
    case False
    then have "(\<forall>a. walk (Suc n) sizeFn p i (fs, a)
           = (case Inr (fiSize i) of Inl f \<Rightarrow> Inl f | Inr v \<Rightarrow> Inr (fs, a + v)))
       \<and> (\<forall>acc. walk (Suc n) (listFn m True True) p i (fs, acc)
           = (case Inr (fiSize i) of Inl f \<Rightarrow> Inl f | Inr v \<Rightarrow> Inr (fs, acc)))"
      by (auto simp: sizeFn_def listFn_excluded)
    then show ?thesis by blast
  next
    case True
    then obtain names where n: "readDirNames fs p = Some names" and d: "fiIsDir i" by auto
    from excluded_walkNames [of n fs m p names, OF Suc.IH] obtain r where
      r: "\<And>a. walkNames n sizeFn p names (fs, a)
                 = (case r of Inl f \<Rightarrow> Inl f | Inr v \<Rightarrow> Inr (fs, a + v))"
      and l: "\<And>acc. walkNames n (listFn m True True) p names (fs, acc)
                 = (case r of Inl f \<Rightarrow> Inl f | Inr v \<Rightarrow> Inr (fs, acc))" by blast
    define r' where "r' = (case r of Inl f \<Rightarrow> Inl f | Inr v \<Rightarrow> Inr (fiSize i + v))"
    have "\<forall>a. walk (Suc n) sizeFn p i (fs, a)
           = (case r' of Inl f \<Rightarrow> Inl f | Inr v \<Rightarrow> Inr (fs, a + v))"
      using n d by (simp add: r'_def sizeFn_def r add.assoc split: sum.splits)
    moreover have "\<forall>acc. walk (Suc n) (listFn m True True) p i (fs, acc)
           = (case r' of Inl f \<Rightarrow> Inl f | Inr v \<Rightarrow> Inr (fs, acc))"
      using n d by (simp add: r'_def listFn_excluded l split: sum.splits)
    ultimately show ?thesis by blast
  qed
qed

lemma listFilesRecursively_excluded:
  "listFilesRecursively n fs dir True True = Inr ([], False) \<longleftrightarrow> (\<exists>v. getSize n fs dir = Inr v)"
proof (cases "Lstat fs dir")
  case None
  then show ?thesis
    by (simp add: listFilesRecursively_def getSize_def Walk_def listFn_excluded sizeFn_def)
next
  case (Some fi)
  from excluded_walk [of n dir fi fs n] obtain r where
      r: "\<And>a. walk n sizeFn dir fi (fs, a)
                 = (case r of Inl f \<Rightarrow> Inl f | Inr v \<Rightarrow> Inr (fs, a + v))"
      and l: "\<And>acc. walk n (listFn n True True) dir fi (fs, acc)
                 = (case r of Inl f \<Rightarrow> Inl f | Inr v \<Rightarrow> Inr (fs, acc))" by blast
  show ?thesis using Some
    by (cases r) (simp_all add: listFilesRecursively_def getSize_def Walk_def r l)
qed

lemma listFiles_excluded: "listFiles n fs dir True True = Inr ([], ReadDir fs dir = None)"
proof (cases "ReadDir fs dir")
  case None
  then show ?thesis by (simp add: listFiles_def)
next
  case (Some fi)
  have "listLoop n fs dir True True fi [] = Inr []"
    by (rule listLoop_none_retained) (simp add: retained_def)
  then show ?thesis using Some by (simp add: listFiles_def)
qed

lemma listed_append:
  "listed nf nd fs es1 r1 \<Longrightarrow> listed nf nd fs es2 r2 \<Longrightarrow> listed nf nd fs (es1 @ es2) (r1 @ r2)"
  by (simp add: listed_def)

lemma listFn_step:
  assumes "listFn m nf nd p (Some i) err (fs, r0) = Inr s"
  shows "\<exists>r. s = (fs, r0 @ r) \<and> listed nf nd fs [(p, i)] r"
proof (cases "retained nf nd i")
  case False
  with assms have "s = (fs, r0 @ [])" by (simp add: listFn_def)
  moreover have "listed nf nd fs [(p, i)] []" using False by (simp add: listed_def)
  ultimately show ?thesis by blast
next
  case True
  with assms obtain sz where "s = (fs, r0 @ [\<lparr>file = Abs fs p, size' = sz\<rparr>])"
    by (auto simp: listFn_def Let_def split: sum.splits)
  moreover have "listed nf nd fs [(p, i)] [\<lparr>file = Abs fs p, size' = sz\<rparr>]"
    using True by (simp add: listed_def)
  ultimately show ?thesis by blast
qed

lemma enumFn_Some [simp]: "enumFn p (Some i) err (fs, es0) = Inr (fs, es0 @ [(p, i)])"
  by (simp add: enumFn_def)

lemma listFn_walkNames:
  assumes w: "\<And>p i r0 s. walk n (listFn m nf nd) p i (fs, r0) = Inr s \<Longrightarrow>
                \<exists>es r. s = (fs, r0 @ r) \<and> listed nf nd fs es r
                  \<and> (\<forall>es0. walk n enumFn p i (fs, es0) = Inr (fs, es0 @ es))"
  shows "walkNames n (listFn m nf nd) p names (fs, r0) = Inr s \<Longrightarrow>
                \<exists>es r. s = (fs, r0 @ r) \<and> listed nf nd fs es r
                  \<and> (\<forall>es0. walkNames n enumFn p names (fs, es0) = Inr (fs, es0 @ es))"
proof (induction names arbitrary: r0)
  case Nil
  then have "s = (fs, r0 @ [])" by simp
  moreover have "listed nf nd fs [] []" by (simp add: listed_def)
  moreover have "\<forall>es0. walkNames n enumFn p [] (fs, es0) = Inr (fs, es0 @ [])" by simp
  ultimately show ?case by blast
next
  case (Cons name names)
  from Cons.prems obtain fi where fi: "Lstat fs (Join p name) = Some fi"
    by (cases "Lstat fs (Join p name)") (auto simp: listFn_def)
  with Cons.prems obtain s1 where
    s1: "walk n (listFn m nf nd) (Join p name) fi (fs, r0) = Inr s1"
    and s: "walkNames n (listFn m nf nd) p names s1 = Inr s"
    by (auto split: sum.splits)
  from w [OF s1] obtain es1 r1 where e1: "s1 = (fs, r0 @ r1)" and l1: "listed nf nd fs es1 r1"
    and w1: "\<And>es0. walk n enumFn (Join p name) fi (fs, es0) = Inr (fs, es0 @ es1)" by blast
  from Cons.IH [of "r0 @ r1"] s e1 obtain es2 r2 where e2: "s = (fs, (r0 @ r1) @ r2)"
    and l2: "listed nf nd fs es2 r2"
    and w2: "\<And>es0. walkNames n enumFn p names (fs, es0) = Inr (fs, es0 @ es2)" by blast
  have "s = (fs, r0 @ (r1 @ r2))" using e2 by simp
  moreover have "listed nf nd fs (es1 @ es2) (r1 @ r2)" using l1 l2 by (rule listed_append)
  moreover have "\<forall>es0. walkNames n enumFn p (name # names) (fs, es0) = Inr (fs, es0 @ (es1 @ es2))"
    using fi by (simp add: w1 w2)
  ultimately show ?case by blast
qed

lemma listFn_walk:
  "walk n (listFn m nf nd) p i (fs, r0) = Inr s \<Longrightarrow>
                \<exists>es r. s = (fs, r0 @ r) \<and> listed nf nd fs es r
                  \<and> (\<forall>es0. walk n enumFn p i (fs, es0) = Inr (fs, es0 @ es))"
proof (induction n arbitrary: p i r0 s)
  case 0
  then show ?case by simp
next
  case (Suc n)
  show ?case
  proof (cases "fiIsDir i \<and> readDirNames fs p \<noteq> None")
    case False
    with Suc.prems obtain err where "listFn m nf nd p (Some i) err (fs, r0) = Inr s"
      by (auto split: if_splits)
    from listFn_step [OF this] obtain r where "s = (fs, r0 @ r)" "listed nf nd fs [(p, i)] r"
      by blast
    moreover have "\<forall>es0. walk (Suc n) enumFn p i (fs, es0) = Inr (fs, es0 @ [(p, i)])"
      using False by auto
    ultimately show ?thesis by blast
  next
    case True
    then obtain names where n: "readDirNames fs p = Some names" and d: "fiIsDir i" by auto
    with Suc.prems obtain s1 where
      s1: "listFn m nf nd p (Some i) False (fs, r0) = Inr s1"
      and s: "walkNames n (listFn m nf nd) p names s1 = Inr s"
      by (auto split: sum.splits)
    from listFn_step [OF s1] obtain r1 where e1: "s1 = (fs, r0 @ r1)"
      and l1: "listed nf nd fs [(p, i)] r1" by blast
    from listFn_walkNames [of n m nf nd fs p names "r0 @ r1" s, OF Suc.IH] s e1
    obtain es2 r2 where e2: "s = (fs, (r0 @ r1) @ r2)"
      and l2: "listed nf nd fs es2 r2"
      and w2: "\<And>es0. walkNames n enumFn p names (fs, es0) = Inr (fs, es0 @ es2)" by blast
    have "s = (fs, r0 @ (r1 @ r2))" using e2 by simp
    moreover have "listed nf nd fs ([(p, i)] @ es2) (r1 @ r2)" using l1 l2 by (rule listed_append)
    moreover have "\<forall>es0. walk (Suc n) enumFn p i (fs, es0) = Inr (fs, es0 @ ([(p, i)] @ es2))"
      using n d by (simp add: w2)
    ultimately show ?thesis by blast
  qed
qed

lemma listFilesRecursively_listed:
  assumes "listFilesRecursively n fs dir nf nd = Inr (result, e)"
  shows "\<not> e \<and> (\<exists>es. Walk n dir enumFn (fs, []) = Inr (fs, es) \<and> listed nf nd fs es result)"
proof -
  from assms obtain fi where fi: "Lstat fs dir = Some fi"
    by (cases "Lstat fs dir") (auto simp: listFilesRecursively_def Walk_def listFn_def)
  with assms obtain s where s: "walk n (listFn n nf nd) dir fi (fs, []) = Inr s"
    and r: "result = snd s" and e: "\<not> e"
    by (auto simp: listFilesRecursively_def Walk_def split: sum.splits)
  from listFn_walk [OF s] obtain es r' where "s = (fs, [] @ r')" "listed nf nd fs es r'"
    "\<And>es0. walk n enumFn dir fi (fs, es0) = Inr (fs, es0 @ es)" by blast
  then have "Walk n dir enumFn (fs, []) = Inr (fs, es) \<and> listed nf nd fs es result"
    using fi r by (simp add: Walk_def)
  then show ?thesis using e by blast
qed

section \<open>Paths and keys\<close>

lemma splitSlash_nonempty [simp]: "splitSlash s \<noteq> []"
  by (induction s) (auto split: list.splits)

lemma splitSlash_append: "splitSlash (a @ CHR ''/'' # b) = splitSlash a @ splitSlash b"
proof (induction a)
  case Nil
  then show ?case by simp
next
  case (Cons c a)
  then show ?case by (cases "splitSlash a") (auto split: list.splits)
qed

lemma splitSlash_noslash: "CHR ''/'' \<notin> set x \<Longrightarrow> splitSlash x = [x]"
  by (induction x) auto

lemma splitSlash_joinSlash:
  "ks \<noteq> [] \<Longrightarrow> \<forall>x\<in>set ks. CHR ''/'' \<notin> set x \<Longrightarrow> splitSlash (joinSlash ks) = ks"
proof (induction ks rule: joinSlash.induct)
  case 1
  then show ?case by simp
next
  case (2 x)
  then show ?case by (simp add: splitSlash_noslash)
next
  case (3 x y ys)
  then show ?case by (simp add: splitSlash_append splitSlash_noslash)
qed

lemma cleanElems_good:
  "\<forall>x\<in>set ks. x = [] \<or> goodName x \<Longrightarrow>
     cleanElems b ks out = rev out @ filter (\<lambda>x. x \<noteq> []) ks"
proof (induction ks arbitrary: out)
  case Nil
  then show ?case by simp
next
  case (Cons x ks)
  then show ?case by (auto simp: goodName_def)
qed

lemma goodName_noslash: "list_all goodName k \<Longrightarrow> \<forall>x\<in>set k. CHR ''/'' \<notin> set x"
  by (auto simp: list_all_iff goodName_def)

lemma goodName_filter: "list_all goodName k \<Longrightarrow> filter (\<lambda>x. x \<noteq> []) k = k"
  by (induction k) (auto simp: goodName_def)

lemma splitSlash_absPath:
  assumes "list_all goodName k"
  shows "splitSlash (absPath k) = [] # (if k = [] then [[]] else k)"
  using splitSlash_joinSlash [OF _ goodName_noslash [OF assms]]
  by (simp add: absPath_def)

lemma keyOf_absPath:
  assumes "list_all goodName k"
  shows "keyOf fs (absPath k) = Some k"
proof -
  have a: "absPath k \<noteq> []" "IsAbs (absPath k)" by (simp_all add: absPath_def IsAbs_def)
  have "cleanElems True (splitSlash (absPath k)) [] = k"
    using assms
    by (subst cleanElems_good)
       (auto simp: splitSlash_absPath [OF assms] list_all_iff goodName_filter)
  then show ?thesis using a by (simp add: keyOf_def)
qed

lemma joinSlash_nonempty: "list_all goodName b \<Longrightarrow> b \<noteq> [] \<Longrightarrow> joinSlash b \<noteq> []"
  by (induction b rule: joinSlash.induct) (auto simp: goodName_def)

lemma Join_absPath:
  assumes a: "list_all goodName a" and b: "list_all goodName b" and n: "b \<noteq> []"
  shows "Join (absPath a) (joinSlash b) = absPath (a @ b)"
proof -
  let ?p = "absPath a @ CHR ''/'' # joinSlash b"
  have abs: "IsAbs ?p" "?p \<noteq> []" by (simp_all add: absPath_def IsAbs_def)
  have s: "splitSlash ?p = ([] # (if a = [] then [[]] else a)) @ b"
    using splitSlash_joinSlash [OF n goodName_noslash [OF b]]
    by (simp add: splitSlash_append splitSlash_absPath [OF a])
  have "cleanElems True (splitSlash ?p) [] = a @ b"
    unfolding s using a b
    by (subst cleanElems_good) (auto simp: list_all_iff goodName_filter)
  then have "Clean ?p = absPath (a @ b)"
    using abs by (simp add: Clean_def absPath_def Let_def)
  moreover have "absPath a \<noteq> []" by (simp add: absPath_def)
  ultimately show ?thesis using joinSlash_nonempty [OF b n] by (simp add: Join_def)
qed

lemma Join_absPath_name:
  assumes "list_all goodName a" "goodName x"
  shows "Join (absPath a) x = absPath (a @ [x])"
  using Join_absPath [of a "[x]"] assms by simp

lemma joinSlash_snoc:
  "joinSlash (xs @ [x]) = (if xs = [] then x else joinSlash xs @ ''/'' @ x)"
  by (induction xs rule: joinSlash.induct) auto

lemma joinSlash_append:
  "xs \<noteq> [] \<Longrightarrow> ys \<noteq> [] \<Longrightarrow> joinSlash (xs @ ys) = joinSlash xs @ ''/'' @ joinSlash ys"
proof (induction xs rule: joinSlash.induct)
  case 1
  then show ?case by simp
next
  case (2 x)
  then show ?case by (cases ys) auto
next
  case (3 x y ys')
  then show ?case by simp
qed

lemma absPath_append:
  "sk \<noteq> [] \<Longrightarrow> absPath (sk @ r) = absPath sk @ (if r = [] then [] else ''/'' @ joinSlash r)"
  by (simp add: absPath_def joinSlash_append)

lemma absPath_last:
  "sk \<noteq> [] \<Longrightarrow> \<exists>pre. absPath sk = pre @ ''/'' @ last sk"
proof -
  assume "sk \<noteq> []"
  then have "sk = butlast sk @ [last sk]" by simp
  then have "joinSlash sk = (if butlast sk = [] then last sk
                             else joinSlash (butlast sk) @ ''/'' @ last sk)"
    using joinSlash_snoc [of "butlast sk" "last sk"] by simp
  then show ?thesis
    by (cases "butlast sk = []") (auto simp: absPath_def)
qed

lemma Base_absPath:
  assumes "sk \<noteq> []" "list_all goodName sk"
  shows "Base (absPath sk) = last sk"
proof -
  from absPath_last [OF assms(1)] obtain pre where p: "absPath sk = pre @ ''/'' @ last sk"
    by blast
  have g: "goodName (last sk)" using assms by (simp add: list_all_iff)
  then obtain c cs where l: "rev (last sk) = c # cs" and c: "c \<noteq> CHR ''/''"
    and cs: "CHR ''/'' \<notin> set cs"
    by (cases "rev (last sk)") (auto simp: goodName_def dest: arg_cong [where f = set])
  have r: "rev (absPath sk) = rev (last sk) @ CHR ''/'' # rev pre" by (simp add: p)
  have t: "takeWhile (\<lambda>c. c \<noteq> CHR ''/'') (rev (last sk) @ CHR ''/'' # rev pre) = rev (last sk)"
    using c cs by (subst takeWhile_append2) (auto simp: l)
  have d: "dropWhile (\<lambda>c. c = CHR ''/'') (rev (absPath sk)) = rev (absPath sk)"
    using c by (simp add: r l)
  have "absPath sk \<noteq> []" by (simp add: absPath_def)
  then show ?thesis using g by (simp add: Base_def d Let_def) (simp add: r t goodName_def)
qed

lemma indexFrom_range: "indexFrom s sub i = - 1 \<or> (\<exists>j. indexFrom s sub i = int j)"
  by (induction s sub i rule: indexFrom.induct) auto

lemma indexFrom_found_length: "indexFrom s sub i \<noteq> - 1 \<Longrightarrow> length sub \<le> length s"
proof (induction s sub i rule: indexFrom.induct)
  case (1 sub i)
  then show ?case by (auto split: if_splits)
next
  case (2 c cs sub i)
  then show ?case by (auto split: if_splits dest: prefix_length_le)
qed

lemma indexFrom_append:
  "indexFrom s sub i \<noteq> - 1 \<Longrightarrow> indexFrom (s @ ext) sub i = indexFrom s sub i"
proof (induction s sub i rule: indexFrom.induct)
  case (1 sub i)
  then show ?case by (cases ext) (auto split: if_splits)
next
  case (2 c cs sub i)
  show ?case
  proof (cases "prefix sub (c # cs)")
    case True
    then have "prefix sub ((c # cs) @ ext)" by (rule prefix_prefix)
    with True show ?thesis by simp
  next
    case False
    with "2.prems" have f: "indexFrom cs sub (Suc i) \<noteq> - 1" by simp
    from indexFrom_found_length [OF f] have len: "length sub \<le> length (c # cs)" by simp
    have "\<not> prefix sub ((c # cs) @ ext)"
    proof
      assume "prefix sub ((c # cs) @ ext)"
      then have "prefix sub (c # cs)" using len
        by (metis prefix_append prefix_length_le prefix_order.antisym prefix_order.order_refl
            append_eq_append_conv_if prefix_def take_is_prefix)
      with False show False by simp
    qed
    with False "2.IH" f show ?thesis by simp
  qed
qed

lemma Index_append: "0 \<le> Index s sub \<Longrightarrow> Index (s @ ext) sub = Index s sub"
  unfolding Index_def by (rule indexFrom_append) simp

lemma copy_rest:
  assumes ne: "sk \<noteq> []" and g: "list_all goodName sk"
    and i: "Index (absPath sk) (last sk) = int (length (absPath sk)) - int (length (last sk))"
  shows "sliceFrom (absPath (sk @ r)) (Index (absPath (sk @ r)) (last sk))
           = Inr (joinSlash (last sk # r))"
proof -
  from absPath_last [OF ne] obtain pre where p: "absPath sk = pre @ ''/'' @ last sk" by blast
  define ext where "ext = (if r = [] then [] else ''/'' @ joinSlash r)"
  have a: "absPath (sk @ r) = absPath sk @ ext" by (simp add: absPath_append [OF ne] ext_def)
  define j where "j = length pre + 1"
  define P where "P = absPath (sk @ r)"
  have idx: "Index (absPath sk) (last sk) = int j" using i by (simp add: p j_def)
  then have I: "Index P (last sk) = int j"
    using Index_append [of "absPath sk" "last sk" ext] by (simp add: a P_def)
  have "drop j P = last sk @ ext"
    by (simp add: a p j_def P_def)
  moreover have "last sk @ ext = joinSlash (last sk # r)"
    by (cases r) (simp_all add: ext_def)
  ultimately have D: "drop j P = joinSlash (last sk # r)" by simp
  have L: "j \<le> length P" by (simp add: a p j_def P_def)
  have T: "take (length P - j) (drop j P) = drop j P" by simp
  have "sliceFrom P (Index P (last sk)) = Inr (drop j P)"
    using L by (simp add: sliceFrom_def slice_def I T del: take_all_iff)
  then have "sliceFrom P (Index P (last sk)) = Inr (joinSlash (last sk # r))"
    by (simp only: D)
  then show ?thesis by (simp add: P_def)
qed

section \<open>The claims about reading the manifest\<close>

text \<open>
  Claim C8. A line of the input file that holds no \<^verbatim>\<open>-\<close> at all makes
  \<^verbatim>\<open>readTextFile\<close> fail with an index error: \<^verbatim>\<open>strings.LastIndex\<close> returns \<open>-1\<close>,
  the end index is \<open>-2\<close> and the slice expression panics. This holds for every such
  line that is terminated by a line feed, wherever it stands in the file: either an
  earlier line has already caused the same panic, or this one does. No path is
  returned for it.
\<close>

theorem readTextFile_line_without_dash:
  assumes "Open fs inputFile = Some f"
    and "readAll fs f = pre @ line @ nl # rest"
    and "pre = [] \<or> last pre = nl"
    and "CHR ''-'' \<notin> set line" and "nl \<notin> set line"
  shows "readTextFile fs inputFile = Inl SliceBounds"
  using assms readLines_bad_line [of line pre rest "[]"]
  by (simp add: readTextFile_def)

theorem readTextFile_line_without_dash_witness:
  "readTextFile \<lparr>ents = [([], Dir 4096 True), ([''m''], File (''abc'' @ [nl]) True)],
                  cwd = ''/'', mkdirSize = 4096\<rparr> ''/m'' = Inl SliceBounds"
proof -
  let ?fs = "\<lparr>ents = [([], Dir 4096 True), ([''m''], File (''abc'' @ [nl]) True)],
                  cwd = ''/'', mkdirSize = 4096\<rparr>"
  have o: "Open ?fs ''/m'' = Some [''m'']" by code_simp
  have r: "readAll ?fs [''m''] = [] @ ''abc'' @ nl # []" by code_simp
  show ?thesis
    by (rule readTextFile_line_without_dash [OF o r]) simp_all
qed

text \<open>
  Claim C10. When the content of the manifest does not end with a line feed, the text
  after the last line feed is dropped silently: \<^verbatim>\<open>readTextFile\<close> returns what it
  returns for the content without that text, so only lines terminated by a line feed
  contribute, one path each, and the unterminated rest cannot cause an error.
\<close>

theorem readTextFile_drops_unterminated_line:
  assumes "Open fs inputFile = Some f"
    and "readAll fs f = whole @ partial"
    and "nl \<notin> set partial"
  shows "readTextFile fs inputFile = readLines whole []
         \<and> (\<forall>paths. readTextFile fs inputFile = Inr paths \<longrightarrow> length paths = count_list whole nl)"
proof -
  have "readTextFile fs inputFile = readLines whole []"
    using assms readLines_partial [of partial whole "[]"] by (simp add: readTextFile_def)
  then show ?thesis using readLines_length [of whole "[]"] by simp
qed

theorem readTextFile_drops_unterminated_line_witness:
  "readTextFile \<lparr>ents = [([], Dir 4096 True),
                          ([''m''], File (''/a - 0.00MB'' @ [nl] @ ''/b - 1'') True)],
                  cwd = ''/'', mkdirSize = 4096\<rparr> ''/m'' = Inr [''/a'']"
proof -
  let ?fs = "\<lparr>ents = [([], Dir 4096 True),
                          ([''m''], File (''/a - 0.00MB'' @ [nl] @ ''/b - 1'') True)],
                  cwd = ''/'', mkdirSize = 4096\<rparr>"
  have o: "Open ?fs ''/m'' = Some [''m'']" by code_simp
  have r: "readAll ?fs [''m''] = (''/a - 0.00MB'' @ [nl]) @ ''/b - 1''" by code_simp
  have n: "nl \<notin> set ''/b - 1''" by simp
  have e: "readLines (''/a - 0.00MB'' @ [nl]) [] = Inr [''/a'']" by code_simp
  have "readTextFile ?fs ''/m'' = readLines (''/a - 0.00MB'' @ [nl]) []"
    using readTextFile_drops_unterminated_line [OF o r n] by (rule conjunct1)
  also note e
  finally show ?thesis .
qed

section \<open>The claims about writing the manifest\<close>

text \<open>
  Claim C3. When the listing has returned its entries and the output file can be
  opened, \<^verbatim>\<open>List\<close> leaves in the file what it held before followed by one line per
  entry, in the order of the entries: the path, \<^verbatim>\<open> - \<close>, the size divided by 1024000
  as \<^verbatim>\<open>%.2f\<close> prints it, \<^verbatim>\<open>MB\<close> and a line feed. The printed number is an optional
  minus sign, digits, the point and exactly two digits. Nothing is truncated, so
  a second run puts its lines after those of the first.
\<close>

theorem List_appends_manifest_lines:
  assumes "(if recursiveFlag then listFilesRecursively n fs directoryPath noFileFlag noDirFlag
            else listFiles n fs directoryPath noFileFlag noDirFlag) = Inr (info, False)"
    and "openWrite False fs outputFile = Some (fs1, f)"
  shows "\<exists>fs2. List n fs directoryPath outputFile noFileFlag noDirFlag recursiveFlag = Inr fs2
           \<and> readAll fs2 f =
               readAll fs f @ concat (map (\<lambda>i. file i @ '' - '' @ fmtMB (size' i) @ ''MB'' @ [nl]) info)
           \<and> list_all (\<lambda>i. twoDecimals (fmtMB (size' i))) info"
proof -
  from openWrite_Some [OF assms(2)] obtain c where
    c: "map_of (ents fs1) f = Some (File c True)" and r: "readAll fs1 f = readAll fs f"
    by auto
  have c': "c = readAll fs f" using c r by (simp add: readAll_def)
  have L: "List n fs directoryPath outputFile noFileFlag noDirFlag recursiveFlag
             = Inr (printLines fs1 f info)"
    using assms by (simp add: List_def)
  have m: "manifestLine = (\<lambda>i. file i @ '' - '' @ fmtMB (size' i) @ ''MB'' @ [nl])"
    by (rule ext) (simp add: manifestLine_def)
  have "readAll (printLines fs1 f info) f = readAll fs f @ concat (map manifestLine info)"
    using printLines_File [OF c, of info] by (simp add: readAll_def c')
  then show ?thesis using L by (simp add: m list_all_iff twoDecimals_fmtMB)
qed

theorem List_appends_manifest_lines_witness:
  "\<exists>fs2. List 2 \<lparr>ents = [([], Dir 4096 True), ([''d''], Dir 4096 True),
                        ([''d'', ''f.bin''], File ''hello'' True),
                        ([''d'', ''sub''], Dir 1024000 True),
                        ([''m''], File (''old'' @ [nl]) True)],
                 cwd = ''/'', mkdirSize = 4096\<rparr> ''/d'' ''/m'' False False False = Inr fs2
     \<and> readAll fs2 [''m''] = ''old'' @ [nl] @ ''/d/f.bin - 0.00MB'' @ [nl] @ ''/d/sub - 1.00MB'' @ [nl]"
proof -
  define fs where "fs = \<lparr>ents = [([], Dir 4096 True), ([''d''], Dir 4096 True),
                        ([''d'', ''f.bin''], File ''hello'' True),
                        ([''d'', ''sub''], Dir 1024000 True),
                        ([''m''], File (''old'' @ [nl]) True)],
                 cwd = ''/'', mkdirSize = 4096\<rparr>"
  have h1: "(if False then listFilesRecursively 2 fs ''/d'' False False
            else listFiles 2 fs ''/d'' False False)
           = Inr ([\<lparr>file = ''/d/f.bin'', size' = 5\<rparr>, \<lparr>file = ''/d/sub'', size' = 1024000\<rparr>], False)"
    unfolding fs_def by code_simp
  have h2: "openWrite False fs ''/m'' = Some (fs, [''m''])" unfolding fs_def by code_simp
  have f1: "fmtMB 5 = ''0.00''"
    by (simp add: fmtMB_def float64_def divMB_def hundredths_def roundFloat_def scale2_def
        roundDiv_def bitlen.simps showNat.simps digit_def Let_def)
  have f2: "fmtMB 1024000 = ''1.00''"
    by (simp add: fmtMB_def float64_def divMB_def hundredths_def roundFloat_def scale2_def
        roundDiv_def bitlen.simps showNat.simps digit_def Let_def)
  have r: "readAll fs [''m''] = ''old'' @ [nl]" unfolding fs_def by code_simp
  from List_appends_manifest_lines [OF h1 h2] obtain fs2 where
    a: "List 2 fs ''/d'' ''/m'' False False False = Inr fs2" and
    b: "readAll fs2 [''m''] = readAll fs [''m''] @
          concat (map (\<lambda>i. file i @ '' - '' @ fmtMB (size' i) @ ''MB'' @ [nl])
            [\<lparr>file = ''/d/f.bin'', size' = 5\<rparr>, \<lparr>file = ''/d/sub'', size' = 1024000\<rparr>])"
    by blast
  have "readAll fs2 [''m''] = ''old'' @ [nl] @ ''/d/f.bin - 0.00MB'' @ [nl] @ ''/d/sub - 1.00MB'' @ [nl]"
    unfolding b r by (simp add: f1 f2)
  with a show ?thesis unfolding fs_def by blast
qed

text \<open>
  Claim C1, amended. Entries whose paths are not empty, hold no line feed and do not
  begin with white space (an absolute path begins with a slash), and whose sizes are
  not negative, are read back as they were written: after \<^verbatim>\<open>List\<close> has printed their
  lines to a new or empty output file, \<^verbatim>\<open>readTextFile\<close> returns exactly their paths, in
  order. The path may hold \<^verbatim>\<open> - \<close>: the reader cuts at the last \<^verbatim>\<open>-\<close> of the line, which
  is always the one the writer put there. The claim as stated fails for a path that
  holds a line feed and no \<^verbatim>\<open> - \<close>: its line is split in two and the first part
  has no \<^verbatim>\<open>-\<close>, so the reader panics.
\<close>

theorem manifest_round_trip:
  assumes "\<forall>i \<in> set info. nl \<notin> set (file i) \<and> spaceWidth (file i) = 0 \<and> file i \<noteq> []
             \<and> 0 \<le> sint (size' i)"
    and "openWrite False fs outputFile = Some (fs1, f)"
    and "readAll fs f = []"
  shows "readTextFile (printLines fs1 f info) outputFile = Inr (map file info)"
proof -
  have e: "readAll fs1 f = []" using openWrite_Some(4) [OF assms(2)] assms(3) by simp
  show ?thesis
    using Open_after_print [OF assms(2), of info] readLines_manifest [OF assms(1), of "[]"]
    by (simp add: readTextFile_def e)
qed

theorem manifest_round_trip_witness:
  "readTextFile
     (printLines \<lparr>ents = [([], Dir 4096 True), ([''m''], File [] True)], cwd = ''/'', mkdirSize = 4096\<rparr>
        [''m''] [\<lparr>file = ''/tmp/my - file'', size' = 5\<rparr>, \<lparr>file = ''/tmp/a-b '', size' = 1024000\<rparr>])
     ''/m'' = Inr [''/tmp/my - file'', ''/tmp/a-b '']"
proof -
  define fs where "fs = \<lparr>ents = [([], Dir 4096 True), ([''m''], File [] True)], cwd = ''/'', mkdirSize = 4096\<rparr>"
  define info where "info = [\<lparr>file = ''/tmp/my - file'', size' = 5\<rparr>, \<lparr>file = ''/tmp/a-b '', size' = 1024000 :: 64 word\<rparr>]"
  have h1: "\<forall>i \<in> set info. nl \<notin> set (file i) \<and> spaceWidth (file i) = 0 \<and> file i \<noteq> []
             \<and> 0 \<le> sint (size' i)"
    unfolding info_def by (simp add: spaceWidth_def spaceRunes_def)
  have h2: "openWrite False fs ''/m'' = Some (fs, [''m''])" unfolding fs_def by code_simp
  have h3: "readAll fs [''m''] = []" unfolding fs_def by code_simp
  have "readTextFile (printLines fs [''m''] info) ''/m'' = Inr (map file info)"
    by (rule manifest_round_trip [OF h1 h2 h3])
  then show ?thesis unfolding fs_def info_def by simp
qed

theorem manifest_round_trip_counterexample:
  "Index (''/tmp/a'' @ [nl] @ ''b'') '' - '' = - 1 \<and>
   readTextFile
     (printLines \<lparr>ents = [([], Dir 4096 True), ([''m''], File [] True)], cwd = ''/'', mkdirSize = 4096\<rparr>
        [''m''] [\<lparr>file = ''/tmp/a'' @ [nl] @ ''b'', size' = 0\<rparr>])
     ''/m'' = Inl SliceBounds"
proof -
  define fs where "fs = \<lparr>ents = [([], Dir 4096 True), ([''m''], File [] True)], cwd = ''/'', mkdirSize = 4096\<rparr>"
  define i where "i = \<lparr>file = ''/tmp/a'' @ [nl] @ ''b'', size' = 0 :: 64 word\<rparr>"
  have h2: "openWrite False fs ''/m'' = Some (fs, [''m''])" unfolding fs_def by code_simp
  have h3: "readAll fs [''m''] = []" unfolding fs_def by code_simp
  have f0: "fmtMB 0 = ''0.00''"
    by (simp add: fmtMB_def float64_def divMB_def hundredths_def roundFloat_def scale2_def
        roundDiv_def bitlen.simps showNat.simps digit_def Let_def)
  define line where "line = ''/tmp/a'' @ [nl] @ ''b - 0.00MB'' @ [nl]"
  have m: "manifestLine i = line"
    by (simp add: manifestLine_def i_def f0 line_def)
  have r: "readLines line [] = Inl SliceBounds"
    unfolding line_def by code_simp
  have "readTextFile (printLines fs [''m''] [i]) ''/m'' = Inl SliceBounds"
    using Open_after_print [OF h2, of "[i]"] by (simp add: readTextFile_def h3 m r)
  moreover have "Index (''/tmp/a'' @ [nl] @ ''b'') '' - '' = - 1" by code_simp
  ultimately show ?thesis unfolding fs_def i_def by simp
qed

section \<open>The claims about the listing\<close>

text \<open>
  Claim C6, amended. The entries of the listing that is not recursive come in the
  order \<^verbatim>\<open>ioutil.ReadDir\<close> gives them, which is ascending by file name (byte-wise),
  not the order in which the directory yields its names: the names of the listed
  entries are the sorted names of the directory, filtered by the two flags. The claim
  as stated fails for a directory that yields \<^verbatim>\<open>b\<close> before \<^verbatim>\<open>a\<close>: the listing has
  \<^verbatim>\<open>a\<close> first.
\<close>

theorem listFiles_sorted_by_name:
  assumes "listFiles n fs dir noFile noDir = Inr (result, False)"
  shows "\<exists>k fi. keyOf fs dir = Some k \<and> ReadDir fs dir = Some fi
           \<and> map fiName fi = sort (childNames fs k)
           \<and> map file result =
               map (\<lambda>i. Abs fs (Join dir (fiName i))) (filter (retained noFile noDir) fi)"
proof -
  from assms obtain fi where r: "ReadDir fs dir = Some fi"
    and l: "listLoop n fs dir noFile noDir fi [] = Inr result"
    by (auto simp: listFiles_def split: option.splits sum.splits)
  from ReadDir_names [OF r] obtain k where "keyOf fs dir = Some k"
    and "map fiName fi = sort (childNames fs k)" by blast
  then show ?thesis using r listLoop_files [OF l] by simp
qed

theorem listFiles_sorted_by_name_witness:
  "childNames \<lparr>ents = [([], Dir 4096 True), ([''d''], Dir 4096 True),
                        ([''d'', ''b''], File ''hello'' True), ([''d'', ''a''], File ''abc'' True)],
                cwd = ''/'', mkdirSize = 4096\<rparr> [''d''] = [''b'', ''a'']
   \<and> (\<exists>fi. ReadDir \<lparr>ents = [([], Dir 4096 True), ([''d''], Dir 4096 True),
                        ([''d'', ''b''], File ''hello'' True), ([''d'', ''a''], File ''abc'' True)],
                cwd = ''/'', mkdirSize = 4096\<rparr> ''/d'' = Some fi \<and> map fiName fi = [''a'', ''b''])"
proof -
  define fs where "fs = \<lparr>ents = [([], Dir 4096 True), ([''d''], Dir 4096 True),
                        ([''d'', ''b''], File ''hello'' True), ([''d'', ''a''], File ''abc'' True)],
                cwd = ''/'', mkdirSize = 4096\<rparr>"
  have h: "listFiles 1 fs ''/d'' False False
             = Inr ([\<lparr>file = ''/d/a'', size' = 3\<rparr>, \<lparr>file = ''/d/b'', size' = 5\<rparr>], False)"
    unfolding fs_def by code_simp
  have k: "keyOf fs ''/d'' = Some [''d'']" unfolding fs_def by code_simp
  have c: "childNames fs [''d''] = [''b'', ''a'']" unfolding fs_def by code_simp
  have s: "sort [''b'', ''a''] = [''a'', ''b'']" by code_simp
  from listFiles_sorted_by_name [OF h] obtain k' fi where
    "keyOf fs ''/d'' = Some k'" and r: "ReadDir fs ''/d'' = Some fi"
    and m: "map fiName fi = sort (childNames fs k')"
    by blast
  with k have "map fiName fi = [''a'', ''b'']" by (simp add: c s)
  with r c have "childNames fs [''d''] = [''b'', ''a'']
      \<and> (\<exists>fi. ReadDir fs ''/d'' = Some fi \<and> map fiName fi = [''a'', ''b''])"
    by (intro conjI exI [of _ fi]) simp_all
  then show ?thesis unfolding fs_def .
qed

theorem listFiles_raw_order_counterexample:
  "childNames \<lparr>ents = [([], Dir 4096 True), ([''d''], Dir 4096 True),
                        ([''d'', ''b''], File ''hello'' True), ([''d'', ''a''], File ''abc'' True)],
                cwd = ''/'', mkdirSize = 4096\<rparr> [''d''] = [''b'', ''a'']
   \<and> listFiles 1 \<lparr>ents = [([], Dir 4096 True), ([''d''], Dir 4096 True),
                        ([''d'', ''b''], File ''hello'' True), ([''d'', ''a''], File ''abc'' True)],
                cwd = ''/'', mkdirSize = 4096\<rparr> ''/d'' False False
       = Inr ([\<lparr>file = ''/d/a'', size' = 3\<rparr>, \<lparr>file = ''/d/b'', size' = 5\<rparr>], False)"
proof -
  define fs where "fs = \<lparr>ents = [([], Dir 4096 True), ([''d''], Dir 4096 True),
                        ([''d'', ''b''], File ''hello'' True), ([''d'', ''a''], File ''abc'' True)],
                cwd = ''/'', mkdirSize = 4096\<rparr>"
  have h: "listFiles 1 fs ''/d'' False False
             = Inr ([\<lparr>file = ''/d/a'', size' = 3\<rparr>, \<lparr>file = ''/d/b'', size' = 5\<rparr>], False)"
    unfolding fs_def by code_simp
  have c: "childNames fs [''d''] = [''b'', ''a'']" unfolding fs_def by code_simp
  from c h have "childNames fs [''d''] = [''b'', ''a''] \<and> listFiles 1 fs ''/d'' False False
             = Inr ([\<lparr>file = ''/d/a'', size' = 3\<rparr>, \<lparr>file = ''/d/b'', size' = 5\<rparr>], False)"
    by (rule conjI)
  then show ?thesis unfolding fs_def .
qed

section \<open>The claims about errors during a walk and at the destination root\<close>

text \<open>
  Claim C7 does not hold of the code. \<^verbatim>\<open>Copy\<close> drops the result of
  \<^verbatim>\<open>os.MkdirAll(directoryPath, 0755)\<close>, so no run of \<^verbatim>\<open>Copy\<close> ends with the printed
  message and exit status 1, whatever the file system. In the file system below the
  destination root \<^verbatim>\<open>/out\<close> is a regular file: \<^verbatim>\<open>os.MkdirAll\<close> fails and changes
  nothing, and yet \<^verbatim>\<open>Copy\<close> reads the manifest and walks the tree \<^verbatim>\<open>/src\<close> named there
  (every copy inside fails, and the run ends normally with the file system unchanged).
  That the walk is entered shows with the manifest \<^verbatim>\<open>/m2\<close>, which names a directory
  that does not exist: the callback of the walk is reached and dereferences the nil
  \<^verbatim>\<open>info\<close>.
\<close>

theorem Copy_continues_after_MkdirAll_failure:
  "Copy n fs directoryPath inputPath \<noteq> Inl Exit1
   \<and> MkdirAll \<lparr>ents = [([], Dir 4096 True), ([''out''], File ''x'' True),
                       ([''src''], Dir 4096 True), ([''src'', ''f''], File ''hello'' True),
                       ([''m''], File (''/src - 0.00MB'' @ [nl]) True),
                       ([''m2''], File (''/gone - 0.00MB'' @ [nl]) True)],
              cwd = ''/'', mkdirSize = 4096\<rparr> ''/out''
     = (\<lparr>ents = [([], Dir 4096 True), ([''out''], File ''x'' True),
                       ([''src''], Dir 4096 True), ([''src'', ''f''], File ''hello'' True),
                       ([''m''], File (''/src - 0.00MB'' @ [nl]) True),
                       ([''m2''], File (''/gone - 0.00MB'' @ [nl]) True)],
              cwd = ''/'', mkdirSize = 4096\<rparr>, False)
   \<and> Copy 2 \<lparr>ents = [([], Dir 4096 True), ([''out''], File ''x'' True),
                       ([''src''], Dir 4096 True), ([''src'', ''f''], File ''hello'' True),
                       ([''m''], File (''/src - 0.00MB'' @ [nl]) True),
                       ([''m2''], File (''/gone - 0.00MB'' @ [nl]) True)],
              cwd = ''/'', mkdirSize = 4096\<rparr> ''/out'' ''/m''
     = Inr \<lparr>ents = [([], Dir 4096 True), ([''out''], File ''x'' True),
                       ([''src''], Dir 4096 True), ([''src'', ''f''], File ''hello'' True),
                       ([''m''], File (''/src - 0.00MB'' @ [nl]) True),
                       ([''m2''], File (''/gone - 0.00MB'' @ [nl]) True)],
              cwd = ''/'', mkdirSize = 4096\<rparr>
   \<and> Copy 2 \<lparr>ents = [([], Dir 4096 True), ([''out''], File ''x'' True),
                       ([''src''], Dir 4096 True), ([''src'', ''f''], File ''hello'' True),
                       ([''m''], File (''/src - 0.00MB'' @ [nl]) True),
                       ([''m2''], File (''/gone - 0.00MB'' @ [nl]) True)],
              cwd = ''/'', mkdirSize = 4096\<rparr> ''/out'' ''/m2''
     = Inl NilDeref"
proof (intro conjI)
  show "Copy n fs directoryPath inputPath \<noteq> Inl Exit1"
    using Copy_failures [of n fs directoryPath inputPath Exit1] by auto
qed code_simp+

text \<open>
  Claim C4 does not hold of the code. The callbacks of \<^verbatim>\<open>getSize\<close> and of
  \<^verbatim>\<open>listFilesRecursively\<close> do not look at \<^verbatim>\<open>err\<close> and call \<^verbatim>\<open>info.Size()\<close> and
  \<^verbatim>\<open>info.IsDir()\<close> at once. When \<^verbatim>\<open>lstat\<close> fails for a name inside the tree,
  \<^verbatim>\<open>filepath.Walk\<close> passes a nil \<^verbatim>\<open>info\<close> and the call panics: the directory
  \<^verbatim>\<open>/d\<close> below holds the file \<^verbatim>\<open>a\<close> and the name \<^verbatim>\<open>x\<close> that cannot be examined, and
  both functions end in the panic instead of a sum or a listing. Only the error of a
  directory whose names cannot be read is passed over: with \<^verbatim>\<open>x\<close> such a directory the
  sum is that of \<^verbatim>\<open>/d\<close>, \<^verbatim>\<open>a\<close> and \<^verbatim>\<open>x\<close> themselves.
\<close>

theorem walk_panics_on_unreadable_entry:
  "getSize 2 \<lparr>ents = [([], Dir 4096 True), ([''d''], Dir 4096 True),
                       ([''d'', ''a''], File ''hello'' True), ([''d'', ''x''], NoStat)],
              cwd = ''/'', mkdirSize = 4096\<rparr> ''/d'' = Inl NilDeref
   \<and> listFilesRecursively 2 \<lparr>ents = [([], Dir 4096 True), ([''d''], Dir 4096 True),
                       ([''d'', ''a''], File ''hello'' True), ([''d'', ''x''], NoStat)],
              cwd = ''/'', mkdirSize = 4096\<rparr> ''/d'' False False = Inl NilDeref
   \<and> getSize 2 \<lparr>ents = [([], Dir 4096 True), ([''d''], Dir 4096 True),
                       ([''d'', ''a''], File ''hello'' True), ([''d'', ''x''], Dir 4096 False)],
              cwd = ''/'', mkdirSize = 4096\<rparr> ''/d'' = Inr 8197"
  by code_simp

section \<open>The claim about the sum of sizes\<close>

text \<open>
  Claim C9, amended. For a file, \<^verbatim>\<open>getSize\<close> is the length of the file. For a
  directory whose names can be read, \<^verbatim>\<open>getSize\<close> is the size reported for the
  directory plus the sum of \<^verbatim>\<open>getSize\<close> over the names in it, provided
  \<^verbatim>\<open>getSize\<close> returns for each of them (all sums are \<^verbatim>\<open>int64\<close> and wrap around).
  The claim as stated fails for a directory whose names cannot be read (one that may be
  searched but not read): \<^verbatim>\<open>filepath.Walk\<close> does not enter it, and \<^verbatim>\<open>getSize\<close> is
  the size of the directory alone although \<^verbatim>\<open>getSize\<close> of the file in it is 5.
\<close>

theorem getSize_recursive:
  assumes "keyOf fs p = Some k"
  shows "(map_of (ents fs) k = Some (File c a) \<longrightarrow> getSize (Suc n) fs p = Inr (of_nat (length c)))
       \<and> (map_of (ents fs) k = Some (Dir sz True)
            \<and> (\<forall>name\<in>set (childNames fs k). getSize n fs (Join p name) = Inr (g name))
          \<longrightarrow> getSize (Suc n) fs p = Inr (sz + sum_list (map g (childNames fs k))))"
proof (intro conjI impI)
  assume "map_of (ents fs) k = Some (File c a)"
  then show "getSize (Suc n) fs p = Inr (of_nat (length c))"
    using assms by (simp add: getSize_def Walk_def Lstat_def statKey_def sizeFn_def)
next
  assume a: "map_of (ents fs) k = Some (Dir sz True)
            \<and> (\<forall>name\<in>set (childNames fs k). getSize n fs (Join p name) = Inr (g name))"
  then have l: "Lstat fs p = Some \<lparr>fiName = nameOf k, fiSize = sz, fiIsDir = True\<rparr>"
    using assms by (simp add: Lstat_def statKey_def)
  from a have r: "readDirNames fs p = Some (sort (childNames fs k))"
    using assms by (simp add: readDirNames_def)
  from a have "\<forall>name\<in>set (sort (childNames fs k)). getSize n fs (Join p name) = Inr (g name)"
    by simp
  from walkNames_sizeFn_sum [OF this]
  have "walkNames n sizeFn p (sort (childNames fs k)) (fs, sz)
          = Inr (fs, sz + sum_list (map g (childNames fs k)))"
    by (simp add: sum_list_sort_distinct [OF distinct_childNames])
  then show "getSize (Suc n) fs p = Inr (sz + sum_list (map g (childNames fs k)))"
    by (simp add: getSize_def Walk_def l r sizeFn_def)
qed

theorem getSize_recursive_witness:
  "getSize 3 \<lparr>ents = [([], Dir 4096 True), ([''d''], Dir 4096 True),
                       ([''d'', ''b''], File ''hello'' True), ([''d'', ''a''], Dir 100 True),
                       ([''d'', ''a'', ''f''], File ''abc'' True)],
              cwd = ''/'', mkdirSize = 4096\<rparr> ''/d'' = Inr 4204
   \<and> getSize 1 \<lparr>ents = [([], Dir 4096 True), ([''d''], Dir 4096 True),
                       ([''d'', ''b''], File ''hello'' True), ([''d'', ''a''], Dir 100 True),
                       ([''d'', ''a'', ''f''], File ''abc'' True)],
              cwd = ''/'', mkdirSize = 4096\<rparr> ''/d/b'' = Inr 5"
proof -
  define fs where "fs = \<lparr>ents = [([], Dir 4096 True), ([''d''], Dir 4096 True),
                       ([''d'', ''b''], File ''hello'' True), ([''d'', ''a''], Dir 100 True),
                       ([''d'', ''a'', ''f''], File ''abc'' True)],
              cwd = ''/'', mkdirSize = 4096\<rparr>"
  have k: "keyOf fs ''/d'' = Some [''d'']" unfolding fs_def by code_simp
  have e: "map_of (ents fs) [''d''] = Some (Dir 4096 True)" unfolding fs_def by code_simp
  have c: "childNames fs [''d''] = [''b'', ''a'']" unfolding fs_def by code_simp
  have gb: "getSize 2 fs (Join ''/d'' ''b'') = Inr 5" unfolding fs_def by code_simp
  have ga: "getSize 2 fs (Join ''/d'' ''a'') = Inr 103" unfolding fs_def by code_simp
  have kb: "keyOf fs ''/d/b'' = Some [''d'', ''b'']" unfolding fs_def by code_simp
  have eb: "map_of (ents fs) [''d'', ''b''] = Some (File ''hello'' True)"
    unfolding fs_def by code_simp
  have "getSize 3 fs ''/d'' = Inr 4204"
    using getSize_recursive [where g = "\<lambda>name. if name = ''a'' then 103 else 5"
        and n = 2 and sz = 4096, OF k] e c ga gb
    by simp
  moreover have "getSize 1 fs ''/d/b'' = Inr 5"
    using getSize_recursive [where c = "''hello''" and a = True and n = 0, OF kb] eb
    by simp
  ultimately show ?thesis unfolding fs_def by (rule conjI)
qed

theorem getSize_unreadable_directory_counterexample:
  "childNames \<lparr>ents = [([], Dir 4096 True), ([''d''], Dir 4096 False),
                       ([''d'', ''a''], File ''hello'' True)],
              cwd = ''/'', mkdirSize = 4096\<rparr> [''d''] = [''a'']
   \<and> getSize 1 \<lparr>ents = [([], Dir 4096 True), ([''d''], Dir 4096 False),
                       ([''d'', ''a''], File ''hello'' True)],
              cwd = ''/'', mkdirSize = 4096\<rparr> ''/d/a'' = Inr 5
   \<and> getSize 2 \<lparr>ents = [([], Dir 4096 True), ([''d''], Dir 4096 False),
                       ([''d'', ''a''], File ''hello'' True)],
              cwd = ''/'', mkdirSize = 4096\<rparr> ''/d'' = Inr 4096"
  by code_simp

section \<open>The claim about the two flags\<close>

text \<open>
  Claim C5, amended. A listing that returns holds, in order, the enumerated entries
  that the flags retain: an entry is retained iff it is a directory and directories
  are not excluded, or it is not a directory and files are not excluded. The
  enumerated entries are those of \<^verbatim>\<open>ioutil.ReadDir\<close> for the listing that is not
  recursive, and those the walk visits for the recursive one. With both kinds
  excluded the listing that is not recursive returns the empty sequence, without an
  error exactly when the directory can be read; the recursive one returns the empty
  sequence without an error exactly when the walk of the tree completes, that is when
  \<^verbatim>\<open>getSize\<close> returns for the directory. The claim as stated fails for a directory
  that cannot be read (the listing returns the error, and \<^verbatim>\<open>List\<close> exits with status
  1) and for a directory holding a name that cannot be examined (the recursive listing
  panics).
\<close>

theorem listing_retains_by_flags:
  "(listFiles n fs dir noFile noDir = Inr (result, e) \<and> ReadDir fs dir = Some fi \<longrightarrow>
      \<not> e \<and> map file result =
          map (\<lambda>i. Abs fs (Join dir (fiName i)))
            (filter (\<lambda>i. (fiIsDir i \<and> \<not> noDir) \<or> (\<not> fiIsDir i \<and> \<not> noFile)) fi))
   \<and> (listFilesRecursively n fs dir noFile noDir = Inr (result', e') \<longrightarrow>
      \<not> e' \<and> (\<exists>es. Walk n dir enumFn (fs, []) = Inr (fs, es)
           \<and> map file result' =
               map (\<lambda>x. Abs fs (fst x))
                 (filter (\<lambda>x. (fiIsDir (snd x) \<and> \<not> noDir) \<or> (\<not> fiIsDir (snd x) \<and> \<not> noFile)) es)))
   \<and> listFiles n fs dir True True = Inr ([], ReadDir fs dir = None)
   \<and> (listFilesRecursively n fs dir True True = Inr ([], False)
        \<longleftrightarrow> (\<exists>v. getSize n fs dir = Inr v))"
proof (intro conjI impI)
  assume a: "listFiles n fs dir noFile noDir = Inr (result, e) \<and> ReadDir fs dir = Some fi"
  then show "\<not> e" by (auto simp: listFiles_def split: sum.splits)
  from a have "listLoop n fs dir noFile noDir fi [] = Inr result"
    by (auto simp: listFiles_def split: sum.splits)
  from listLoop_files [OF this]
  show "map file result =
          map (\<lambda>i. Abs fs (Join dir (fiName i)))
            (filter (\<lambda>i. (fiIsDir i \<and> \<not> noDir) \<or> (\<not> fiIsDir i \<and> \<not> noFile)) fi)"
    by (simp add: retained_def [abs_def])
next
  assume a: "listFilesRecursively n fs dir noFile noDir = Inr (result', e')"
  from listFilesRecursively_listed [OF a] show "\<not> e'" by blast
  from listFilesRecursively_listed [OF a]
  show "\<exists>es. Walk n dir enumFn (fs, []) = Inr (fs, es)
           \<and> map file result' =
               map (\<lambda>x. Abs fs (fst x))
                 (filter (\<lambda>x. (fiIsDir (snd x) \<and> \<not> noDir) \<or> (\<not> fiIsDir (snd x) \<and> \<not> noFile)) es)"
    by (simp add: listed_def retained_def)
next
  show "listFiles n fs dir True True = Inr ([], ReadDir fs dir = None)"
    by (rule listFiles_excluded)
next
  show "listFilesRecursively n fs dir True True = Inr ([], False)
        \<longleftrightarrow> (\<exists>v. getSize n fs dir = Inr v)"
    by (rule listFilesRecursively_excluded)
qed

theorem listing_retains_by_flags_witness:
  "listFiles 2 \<lparr>ents = [([], Dir 4096 True), ([''d''], Dir 4096 True),
                       ([''d'', ''b''], File ''hello'' True), ([''d'', ''a''], Dir 100 True),
                       ([''d'', ''a'', ''f''], File ''abc'' True)],
              cwd = ''/'', mkdirSize = 4096\<rparr> ''/d'' True False = Inr ([\<lparr>file = ''/d/a'', size' = 103\<rparr>], False)
   \<and> listFilesRecursively 3 \<lparr>ents = [([], Dir 4096 True), ([''d''], Dir 4096 True),
                       ([''d'', ''b''], File ''hello'' True), ([''d'', ''a''], Dir 100 True),
                       ([''d'', ''a'', ''f''], File ''abc'' True)],
              cwd = ''/'', mkdirSize = 4096\<rparr> ''/d'' True False
       = Inr ([\<lparr>file = ''/d'', size' = 4204\<rparr>, \<lparr>file = ''/d/a'', size' = 103\<rparr>], False)
   \<and> (\<exists>es. Walk 3 ''/d'' enumFn (\<lparr>ents = [([], Dir 4096 True), ([''d''], Dir 4096 True),
                       ([''d'', ''b''], File ''hello'' True), ([''d'', ''a''], Dir 100 True),
                       ([''d'', ''a'', ''f''], File ''abc'' True)],
              cwd = ''/'', mkdirSize = 4096\<rparr>, []) = Inr (\<lparr>ents = [([], Dir 4096 True), ([''d''], Dir 4096 True),
                       ([''d'', ''b''], File ''hello'' True), ([''d'', ''a''], Dir 100 True),
                       ([''d'', ''a'', ''f''], File ''abc'' True)],
              cwd = ''/'', mkdirSize = 4096\<rparr>, es)
         \<and> [''/d'', ''/d/a''] =
              map (\<lambda>x. Abs \<lparr>ents = [([], Dir 4096 True), ([''d''], Dir 4096 True),
                       ([''d'', ''b''], File ''hello'' True), ([''d'', ''a''], Dir 100 True),
                       ([''d'', ''a'', ''f''], File ''abc'' True)],
              cwd = ''/'', mkdirSize = 4096\<rparr> (fst x)) (filter (\<lambda>x. fiIsDir (snd x)) es))
   \<and> listFilesRecursively 3 \<lparr>ents = [([], Dir 4096 True), ([''d''], Dir 4096 True),
                       ([''d'', ''b''], File ''hello'' True), ([''d'', ''a''], Dir 100 True),
                       ([''d'', ''a'', ''f''], File ''abc'' True)],
              cwd = ''/'', mkdirSize = 4096\<rparr> ''/d'' True True = Inr ([], False)"
proof -
  define fs where "fs = \<lparr>ents = [([], Dir 4096 True), ([''d''], Dir 4096 True),
                       ([''d'', ''b''], File ''hello'' True), ([''d'', ''a''], Dir 100 True),
                       ([''d'', ''a'', ''f''], File ''abc'' True)],
              cwd = ''/'', mkdirSize = 4096\<rparr>"
  have h1: "listFiles 2 fs ''/d'' True False = Inr ([\<lparr>file = ''/d/a'', size' = 103\<rparr>], False)"
    unfolding fs_def by code_simp
  have h2: "listFilesRecursively 3 fs ''/d'' True False
       = Inr ([\<lparr>file = ''/d'', size' = 4204\<rparr>, \<lparr>file = ''/d/a'', size' = 103\<rparr>], False)"
    unfolding fs_def by code_simp
  have g: "getSize 3 fs ''/d'' = Inr 4204" unfolding fs_def by code_simp
  note t = listing_retains_by_flags [where n = 3 and fs = fs and dir = "''/d''"
      and noFile = True and noDir = False
      and result' = "[\<lparr>file = ''/d'', size' = 4204\<rparr>, \<lparr>file = ''/d/a'', size' = 103\<rparr>]"
      and e' = False]
  from t h2 have "\<exists>es. Walk 3 ''/d'' enumFn (fs, []) = Inr (fs, es)
         \<and> [''/d'', ''/d/a''] =
              map (\<lambda>x. Abs fs (fst x)) (filter (\<lambda>x. fiIsDir (snd x)) es)"
    by simp
  moreover from t g have "listFilesRecursively 3 fs ''/d'' True True = Inr ([], False)"
    by simp
  ultimately show ?thesis using h1 h2 unfolding fs_def by (intro conjI)
qed

theorem listing_unreadable_directory_counterexample:
  "listFiles 1 \<lparr>ents = [([], Dir 4096 True), ([''d''], Dir 4096 False),
                       ([''e''], Dir 4096 True), ([''e'', ''x''], NoStat)],
              cwd = ''/'', mkdirSize = 4096\<rparr> ''/d'' True True = Inr ([], True)
   \<and> List 1 \<lparr>ents = [([], Dir 4096 True), ([''d''], Dir 4096 False),
                       ([''e''], Dir 4096 True), ([''e'', ''x''], NoStat)],
              cwd = ''/'', mkdirSize = 4096\<rparr> ''/d'' ''/m'' True True False = Inl Exit1
   \<and> listFilesRecursively 2 \<lparr>ents = [([], Dir 4096 True), ([''d''], Dir 4096 False),
                       ([''e''], Dir 4096 True), ([''e'', ''x''], NoStat)],
              cwd = ''/'', mkdirSize = 4096\<rparr> ''/e'' True True = Inl NilDeref"
  by code_simp

end
